theory Spec2Isabelle
  imports Complex_Main "HOL-Library.Word" "HOL-Library.AList"
begin

section \<open>Layout engine (src/structs/layout.ts)\<close>

text \<open>
  The thirteen primitive kinds of \<^verbatim>\<open>PrimitiveType\<close>.  A \<^verbatim>\<open>FieldType\<close> is a primitive
  kind, a nested struct layout or a fixed-size array of a primitive kind.  The interfaces
  \<^verbatim>\<open>FieldLayout\<close> and \<^verbatim>\<open>StructLayout\<close> refer to each other through \<^verbatim>\<open>FieldType\<close>, so the
  three are one mutually recursive datatype; the selectors carry the prefix of their
  interface (\<open>fl_\<close>, \<open>sl_\<close>).

  The \<^verbatim>\<open>number\<close>s of a layout (offsets, sizes, alignments, array counts) are byte counts:
  they are modelled as natural numbers.
\<close>

datatype PrimitiveType =
  U8 | I8 | U16 | I16 | U32 | I32 | U64 | I64 | F32 | F64 | Ptr | Usize | Bool

datatype FieldType =
    Prim PrimitiveType
  | Struct StructLayout
  | Array PrimitiveType nat
and FieldLayout =
    FieldLayout (fl_name: string) (fl_type: FieldType)
      (fl_offset: nat) (fl_size: nat) (fl_alignment: nat)
and StructLayout =
    StructLayout (sl_name: string) (sl_fields: "FieldLayout list")
      (sl_size: nat) (sl_alignment: nat)

record FieldDef =
  fd_name :: string
  fd_type :: FieldType

record TypeInfo =
  ti_size :: nat
  ti_alignment :: nat

text \<open>The table \<^verbatim>\<open>TYPE_INFO\<close>: size and alignment in bytes.\<close>

fun TYPE_INFO :: "PrimitiveType \<Rightarrow> TypeInfo" where
  "TYPE_INFO U8 = \<lparr>ti_size = 1, ti_alignment = 1\<rparr>"
| "TYPE_INFO I8 = \<lparr>ti_size = 1, ti_alignment = 1\<rparr>"
| "TYPE_INFO U16 = \<lparr>ti_size = 2, ti_alignment = 2\<rparr>"
| "TYPE_INFO I16 = \<lparr>ti_size = 2, ti_alignment = 2\<rparr>"
| "TYPE_INFO U32 = \<lparr>ti_size = 4, ti_alignment = 4\<rparr>"
| "TYPE_INFO I32 = \<lparr>ti_size = 4, ti_alignment = 4\<rparr>"
| "TYPE_INFO U64 = \<lparr>ti_size = 8, ti_alignment = 8\<rparr>"
| "TYPE_INFO I64 = \<lparr>ti_size = 8, ti_alignment = 8\<rparr>"
| "TYPE_INFO F32 = \<lparr>ti_size = 4, ti_alignment = 4\<rparr>"
| "TYPE_INFO F64 = \<lparr>ti_size = 8, ti_alignment = 8\<rparr>"
| "TYPE_INFO Ptr = \<lparr>ti_size = 8, ti_alignment = 8\<rparr>"
| "TYPE_INFO Usize = \<lparr>ti_size = 8, ti_alignment = 8\<rparr>"
| "TYPE_INFO Bool = \<lparr>ti_size = 4, ti_alignment = 4\<rparr>"

text \<open>
  \<^verbatim>\<open>getTypeInfo\<close>.  Its final \<^verbatim>\<open>throw new Error("Unknown type: ...")\<close> is reached only by a
  value that is none of the three shapes of \<^verbatim>\<open>FieldType\<close>; the datatype has no such value.
\<close>

fun getTypeInfo :: "FieldType \<Rightarrow> TypeInfo" where
  "getTypeInfo (Prim type) = TYPE_INFO type"
| "getTypeInfo (Struct struct) =
     \<lparr>ti_size = sl_size struct, ti_alignment = sl_alignment struct\<rparr>"
| "getTypeInfo (Array array count) =
     (let elemInfo = TYPE_INFO array
      in \<lparr>ti_size = ti_size elemInfo * count, ti_alignment = ti_alignment elemInfo\<rparr>)"

text \<open>
  \<^verbatim>\<open>align\<close>.  For \<open>alignment = 0\<close> JavaScript's \<^verbatim>\<open>%\<close> yields \<^verbatim>\<open>NaN\<close>, which a natural number
  cannot express; every statement below that depends on \<open>align\<close> is about alignments of at
  least 1, where \<open>mod\<close> on \<open>nat\<close> is JavaScript's \<^verbatim>\<open>%\<close>.
\<close>

definition align :: "nat \<Rightarrow> nat \<Rightarrow> nat" where
  "align offset alignment =
     (let remainder = offset mod alignment
      in if remainder = 0 then offset else offset + (alignment - remainder))"

text \<open>
  The \<^verbatim>\<open>for (const field of fields)\<close> loop of \<^verbatim>\<open>defineStruct\<close>, with its three mutable
  variables \<^verbatim>\<open>offset\<close>, \<^verbatim>\<open>maxAlignment\<close> and \<^verbatim>\<open>layoutFields\<close> as accumulators.
\<close>

fun defineStruct_loop ::
  "FieldDef list \<Rightarrow> nat \<Rightarrow> nat \<Rightarrow> FieldLayout list \<Rightarrow> nat \<times> nat \<times> FieldLayout list" where
  "defineStruct_loop [] offset maxAlignment layoutFields = (offset, maxAlignment, layoutFields)"
| "defineStruct_loop (field # rest) offset maxAlignment layoutFields =
     (let info = getTypeInfo (fd_type field);
          offset1 = align offset (ti_alignment info);
          maxAlignment1 = max maxAlignment (ti_alignment info);
          layoutFields1 = layoutFields @
            [FieldLayout (fd_name field) (fd_type field) offset1 (ti_size info) (ti_alignment info)]
      in defineStruct_loop rest (offset1 + ti_size info) maxAlignment1 layoutFields1)"

definition defineStruct :: "string \<Rightarrow> FieldDef list \<Rightarrow> StructLayout" where
  "defineStruct name fieldDefs =
     (case defineStruct_loop fieldDefs 0 1 [] of
        (offset, maxAlignment, layoutFields) \<Rightarrow>
          StructLayout name layoutFields (align offset maxAlignment) maxAlignment)"

text \<open>
  \<^verbatim>\<open>getFieldOffset\<close>: \<^verbatim>\<open>Array.prototype.find\<close> returns the first field with the name, or
  \<^verbatim>\<open>undefined\<close>, for which the function throws.
\<close>

datatype JSError = Error string | TypeError | RangeError | SyntaxError

definition getFieldOffset :: "StructLayout \<Rightarrow> string \<Rightarrow> JSError + nat" where
  "getFieldOffset layout fieldName =
     (case find (\<lambda>f. fl_name f = fieldName) (sl_fields layout) of
        None \<Rightarrow>
          Inl (Error (''Field '' @ [CHR 0x27] @ fieldName @ [CHR 0x27] @
                      '' not found in struct '' @ [CHR 0x27] @ sl_name layout @ [CHR 0x27]))
      | Some field \<Rightarrow> Inr (fl_offset field))"

subsection \<open>The layout algorithm in the words of the specification\<close>

text \<open>
  Section 4.1 of the specification: walk the fields in declaration order with a running
  offset (initially 0) and a running maximal alignment (initially 1); round the running
  offset up to the field's alignment, record it as the field's offset, add the field's
  size; after all fields round the final offset up to the maximal alignment.
\<close>

definition spec_align :: "nat \<Rightarrow> nat \<Rightarrow> nat" where
  "spec_align offset a = (if offset mod a = 0 then offset else offset + (a - offset mod a))"

fun spec_offsets :: "nat \<Rightarrow> FieldDef list \<Rightarrow> FieldLayout list" where
  "spec_offsets running [] = []"
| "spec_offsets running (d # ds) =
     (let a = ti_alignment (getTypeInfo (fd_type d));
          s = ti_size (getTypeInfo (fd_type d));
          off = spec_align running a
      in FieldLayout (fd_name d) (fd_type d) off s a # spec_offsets (off + s) ds)"

fun spec_final_offset :: "nat \<Rightarrow> FieldDef list \<Rightarrow> nat" where
  "spec_final_offset running [] = running"
| "spec_final_offset running (d # ds) =
     spec_final_offset
       (spec_align running (ti_alignment (getTypeInfo (fd_type d)))
          + ti_size (getTypeInfo (fd_type d))) ds"

definition spec_max_alignment :: "FieldDef list \<Rightarrow> nat" where
  "spec_max_alignment ds = Max (insert 1 (set (map (\<lambda>d. ti_alignment (getTypeInfo (fd_type d))) ds)))"

definition spec_computeLayout :: "string \<Rightarrow> FieldDef list \<Rightarrow> StructLayout" where
  "spec_computeLayout name ds =
     StructLayout name (spec_offsets 0 ds)
       (spec_align (spec_final_offset 0 ds) (spec_max_alignment ds))
       (spec_max_alignment ds)"

section \<open>JavaScript values and the platform\<close>

text \<open>
  The values that reach the encoder, as far as the model goes: \<^verbatim>\<open>undefined\<close>, \<^verbatim>\<open>null\<close>,
  booleans, finite numbers, bigints, plain records, arrays, and the built-in members that a
  property lookup finds on \<^verbatim>\<open>Object.prototype\<close>.  A number is the rational it denotes (every
  finite double is one; the rounding of arithmetic never enters, since the encoder does
  none).  A record is the association list of its own properties, read with \<open>map_of\<close>.
  \<open>Builtin n\<close> is the member that \<^verbatim>\<open>Object.prototype\<close> holds under the name \<open>n\<close>: a built-in
  function or, for \<^verbatim>\<open>__proto__\<close>, the prototype object itself.

  Outside the model: \<^verbatim>\<open>NaN\<close>, the infinities and minus zero as values of a value map,
  strings, symbols, functions of the caller, records with accessors or with a prototype
  other than \<^verbatim>\<open>Object.prototype\<close>, records whose own \<^verbatim>\<open>valueOf\<close> or \<^verbatim>\<open>toString\<close> is a
  function, and arrays with holes or with properties besides their elements.
\<close>

datatype JSValue =
    Undefined
  | Null
  | JSBool bool
  | Num rat
  | BigInt int
  | Obj "(string \<times> JSValue) list"
  | Arr "JSValue list"
  | Builtin string

text \<open>The result of \<^verbatim>\<open>ToNumber\<close>: a finite number or \<^verbatim>\<open>NaN\<close>.\<close>

datatype JSNumber = NaN | Finite rat

type_synonym byte = "8 word"

type_synonym Pointer = nat

text \<open>
  What the runtime provides and the repository does not contain: the IEEE-754 conversions
  behind \<^verbatim>\<open>DataView.setFloat32/64\<close> and \<^verbatim>\<open>getFloat32/64\<close>; the address \<^verbatim>\<open>ptr()\<close> of
  \<^verbatim>\<open>bun:ffi\<close> reports for a typed array; the address of a \<^verbatim>\<open>JSCallback\<close>; the process memory
  that \<^verbatim>\<open>toArrayBuffer\<close> exposes; the property that a value other than a plain record finds
  along its prototype chain when it has no own property of the name (a member of
  \<^verbatim>\<open>Array.prototype\<close>, \<^verbatim>\<open>Number.prototype\<close> and so on, or a property of a built-in; a getter
  may throw); and the integer whose digits \<^verbatim>\<open>Number.prototype.toString\<close> prints for an
  integral number of magnitude between \<open>2\<^sup>5\<^sup>3\<close> and \<open>10\<^sup>2\<^sup>1\<close> (the shortest decimal that reads
  back as the same double).  They are parameters of the model.  \<^verbatim>\<open>ptr()\<close> is taken to
  report some address for every array; no statement depends on which.
\<close>

record Platform =
  to_float32 :: "JSNumber \<Rightarrow> 32 word"
  to_float64 :: "JSNumber \<Rightarrow> 64 word"
  from_float32 :: "32 word \<Rightarrow> JSValue"
  from_float64 :: "64 word \<Rightarrow> JSValue"
  ffi_ptr :: "byte list \<Rightarrow> Pointer"
  callback_ptr :: "nat \<Rightarrow> Pointer"
  native_memory :: "nat \<Rightarrow> byte"
  prototype_member :: "JSValue \<Rightarrow> string \<Rightarrow> JSError + JSValue"
  printed_integer :: "rat \<Rightarrow> int"

text \<open>
  \<^verbatim>\<open>Number(bigint)\<close>, and the number that the decimal text of an integer denotes: the
  nearest double, ties to the even significand.  An integer of at most 53 bits is itself a
  double; a longer one keeps its 53 leading bits, rounded.  (An integer of more than 1024
  bits, which becomes an infinity, is outside the model.)
\<close>

function bit_length :: "nat \<Rightarrow> nat" where
  "bit_length n = (if n = 0 then 0 else Suc (bit_length (n div 2)))"
  by pat_completeness auto
termination
  by (relation "measure id") auto

declare bit_length.simps [simp del]

definition Number_of_bigint :: "int \<Rightarrow> rat" where
  "Number_of_bigint n =
     (let m = nat \<bar>n\<bar>;
          e = bit_length m - 53;
          q = m div 2 ^ e;
          r = m mod 2 ^ e;
          q1 = (if 2 ^ e < 2 * r \<or> (2 ^ e = 2 * r \<and> odd q) then q + 1 else q)
      in of_int (sgn n * int (q1 * 2 ^ e)))"

text \<open>Whether a number is an integer.\<close>

definition is_integer :: "rat \<Rightarrow> bool" where
  "is_integer x = (of_int \<lfloor>x\<rfloor> = x)"

text \<open>
  The names of the properties of \<^verbatim>\<open>Object.prototype\<close>, which every plain record inherits,
  and the lookup \<^verbatim>\<open>record[name]\<close>: the own property if there is one, else the inherited
  member, else \<^verbatim>\<open>undefined\<close>.
\<close>

definition Object_prototype :: "string list" where
  "Object_prototype =
     [''constructor'', ''hasOwnProperty'', ''isPrototypeOf'', ''propertyIsEnumerable'',
      ''toLocaleString'', ''toString'', ''valueOf'', ''__defineGetter__'', ''__defineSetter__'',
      ''__lookupGetter__'', ''__lookupSetter__'', ''__proto__'']"

definition recordGet :: "(string \<times> JSValue) list \<Rightarrow> string \<Rightarrow> JSValue" where
  "recordGet kvs name =
     (case map_of kvs name of
        Some v \<Rightarrow> v
      | None \<Rightarrow> if name \<in> set Object_prototype then Builtin name else Undefined)"

text \<open>
  Whether the conversion of a value to text throws, as \<^verbatim>\<open>Array.prototype.join\<close> applies it to
  the elements of an array.  A record converts through its \<^verbatim>\<open>toString\<close>, then its \<^verbatim>\<open>valueOf\<close>:
  the inherited \<^verbatim>\<open>toString\<close> returns \<^verbatim>\<open>"[object Object]"\<close>; an own \<^verbatim>\<open>toString\<close> that is not a
  function is passed over, the inherited \<^verbatim>\<open>valueOf\<close> returns the record itself, and the
  conversion raises a \<^verbatim>\<open>TypeError\<close>.
\<close>

fun ToString_throws :: "JSValue \<Rightarrow> bool" where
  "ToString_throws (Obj kvs) = (map_of kvs ''toString'' \<noteq> None)"
| "ToString_throws (Arr xs) = list_ex ToString_throws xs"
| "ToString_throws v = False"

text \<open>
  \<^verbatim>\<open>ToNumber\<close> of ECMAScript, applied by the \<^verbatim>\<open>DataView\<close> setters of the number kinds.  A
  bigint raises a \<^verbatim>\<open>TypeError\<close>.  A plain record converts through \<^verbatim>\<open>"[object Object]"\<close> to
  \<^verbatim>\<open>NaN\<close>, or raises a \<^verbatim>\<open>TypeError\<close> as above; a built-in converts through text that is no
  numeric literal; an array converts through the comma-joined text of its elements.
\<close>

fun ToNumber :: "JSValue \<Rightarrow> JSError + JSNumber" where
  "ToNumber Undefined = Inr NaN"
| "ToNumber Null = Inr (Finite 0)"
| "ToNumber (JSBool b) = Inr (Finite (if b then 1 else 0))"
| "ToNumber (Num x) = Inr (Finite x)"
| "ToNumber (BigInt n) = Inl TypeError"
| "ToNumber (Builtin n) = Inr NaN"
| "ToNumber (Obj kvs) = (if map_of kvs ''toString'' = None then Inr NaN else Inl TypeError)"
| "ToNumber (Arr []) = Inr (Finite 0)"
| "ToNumber (Arr [Undefined]) = Inr (Finite 0)"
| "ToNumber (Arr [Null]) = Inr (Finite 0)"
| "ToNumber (Arr [JSBool b]) = Inr NaN"
| "ToNumber (Arr [Num x]) = Inr (Finite x)"
| "ToNumber (Arr [BigInt n]) = Inr (Finite (Number_of_bigint n))"
| "ToNumber (Arr [Builtin n]) = Inr NaN"
| "ToNumber (Arr [Obj kvs]) = (if map_of kvs ''toString'' = None then Inr NaN else Inl TypeError)"
| "ToNumber (Arr [Arr ys]) = ToNumber (Arr ys)"
| "ToNumber (Arr (x # y # zs)) =
     (if list_ex ToString_throws (x # y # zs) then Inl TypeError else Inr NaN)"

text \<open>
  The function call \<^verbatim>\<open>BigInt(value)\<close>: \<^verbatim>\<open>undefined\<close> and \<^verbatim>\<open>null\<close> raise a \<^verbatim>\<open>TypeError\<close>, a number
  with a fractional part a \<^verbatim>\<open>RangeError\<close>, text that is not an integer literal a
  \<^verbatim>\<open>SyntaxError\<close>.  In an array, a number with a fractional part prints with a point and a
  number of magnitude \<open>10\<^sup>2\<^sup>1\<close> or more in exponent notation; neither is an integer literal.
\<close>

fun BigInt_of :: "Platform \<Rightarrow> JSValue \<Rightarrow> JSError + int" where
  "BigInt_of P Undefined = Inl TypeError"
| "BigInt_of P Null = Inl TypeError"
| "BigInt_of P (JSBool b) = Inr (if b then 1 else 0)"
| "BigInt_of P (Num x) = (if is_integer x then Inr \<lfloor>x\<rfloor> else Inl RangeError)"
| "BigInt_of P (BigInt n) = Inr n"
| "BigInt_of P (Builtin n) = Inl SyntaxError"
| "BigInt_of P (Obj kvs) = (if map_of kvs ''toString'' = None then Inl SyntaxError else Inl TypeError)"
| "BigInt_of P (Arr []) = Inr 0"
| "BigInt_of P (Arr [Undefined]) = Inr 0"
| "BigInt_of P (Arr [Null]) = Inr 0"
| "BigInt_of P (Arr [JSBool b]) = Inl SyntaxError"
| "BigInt_of P (Arr [Num x]) =
     (if is_integer x \<and> \<bar>x\<bar> < 10 ^ 21
      then Inr (if \<bar>x\<bar> < 2 ^ 53 then \<lfloor>x\<rfloor> else printed_integer P x)
      else Inl SyntaxError)"
| "BigInt_of P (Arr [BigInt n]) = Inr n"
| "BigInt_of P (Arr [Builtin n]) = Inl SyntaxError"
| "BigInt_of P (Arr [Obj kvs]) =
     (if map_of kvs ''toString'' = None then Inl SyntaxError else Inl TypeError)"
| "BigInt_of P (Arr [Arr ys]) = BigInt_of P (Arr ys)"
| "BigInt_of P (Arr (x # y # zs)) =
     (if list_ex ToString_throws (x # y # zs) then Inl TypeError else Inl SyntaxError)"

text \<open>Decimal text of a natural number, as a template literal prints a non-negative integer.\<close>

function decimal :: "nat \<Rightarrow> string" where
  "decimal n = (if n < 10 then [char_of (48 + n)] else decimal (n div 10) @ [char_of (48 + n mod 10)])"
  by pat_completeness auto
termination
  by (relation "measure id") auto

declare decimal.simps [simp del]

text \<open>
  Property access \<^verbatim>\<open>value[name]\<close> with a field name, and \<^verbatim>\<open>arr[i]\<close> with an index.  On
  \<^verbatim>\<open>undefined\<close> and \<^verbatim>\<open>null\<close> it raises a \<^verbatim>\<open>TypeError\<close>.  A record is read with \<open>recordGet\<close>.  An
  array has \<^verbatim>\<open>length\<close> and its canonical indices as own properties.  Every other lookup goes
  along the prototype chain, which the platform provides.
\<close>

definition array_index :: "string \<Rightarrow> nat option" where
  "array_index s =
     (if s \<noteq> [] \<and> list_all (\<lambda>c. c \<in> set ''0123456789'') s \<and> (s = ''0'' \<or> hd s \<noteq> CHR ''0'')
      then Some (foldl (\<lambda>acc c. 10 * acc + (of_char c - 48)) 0 s) else None)"

fun getProperty :: "Platform \<Rightarrow> JSValue \<Rightarrow> string \<Rightarrow> JSError + JSValue" where
  "getProperty P Undefined name = Inl TypeError"
| "getProperty P Null name = Inl TypeError"
| "getProperty P (Obj kvs) name = Inr (recordGet kvs name)"
| "getProperty P (Arr xs) name =
     (if name = ''length'' then Inr (Num (of_nat (length xs)))
      else case array_index name of
             None \<Rightarrow> prototype_member P (Arr xs) name
           | Some i \<Rightarrow> if i < length xs then Inr (xs ! i) else prototype_member P (Arr xs) name)"
| "getProperty P v name = prototype_member P v name"

fun getElement :: "Platform \<Rightarrow> JSValue \<Rightarrow> nat \<Rightarrow> JSError + JSValue" where
  "getElement P (Arr xs) i =
     (if i < length xs then Inr (xs ! i) else prototype_member P (Arr xs) (decimal i))"
| "getElement P v i = getProperty P v (decimal i)"

text \<open>
  The comparison \<^verbatim>\<open>i < v\<close> of a loop counter with a value: a bigint is compared as the
  integer it is, every other value through \<^verbatim>\<open>ToNumber\<close>; it is false for \<^verbatim>\<open>NaN\<close>.
\<close>

fun js_less :: "nat \<Rightarrow> JSValue \<Rightarrow> JSError + bool" where
  "js_less i (BigInt n) = Inr (int i < n)"
| "js_less i v =
     (case ToNumber v of
        Inl e \<Rightarrow> Inl e
      | Inr NaN \<Rightarrow> Inr False
      | Inr (Finite x) \<Rightarrow> Inr (of_nat i < x))"
section \<open>DataView\<close>

text \<open>
  An \<^verbatim>\<open>ArrayBuffer\<close> with its \<^verbatim>\<open>DataView\<close> is the list of its bytes.  \<open>le_bytes n x\<close> is the
  \<open>n\<close>-byte little-endian two's complement image of \<open>x\<close> modulo \<open>2\<^sup>8\<^sup>n\<close>, which is what the
  integer setters store; \<open>le_val\<close> reads bytes as an unsigned integer and \<open>to_signed\<close>
  reinterprets it.
\<close>

fun le_bytes :: "nat \<Rightarrow> int \<Rightarrow> byte list" where
  "le_bytes 0 x = []"
| "le_bytes (Suc n) x = word_of_int (x mod 256) # le_bytes n (x div 256)"

fun le_val :: "byte list \<Rightarrow> int" where
  "le_val [] = 0"
| "le_val (b # bs) = uint b + 256 * le_val bs"

definition to_signed :: "nat \<Rightarrow> int \<Rightarrow> int" where
  "to_signed bits u = (if u < 2 ^ (bits - 1) then u else u - 2 ^ bits)"

text \<open>
  The integer conversions of the setters map \<^verbatim>\<open>NaN\<close> to 0 and truncate a number towards zero
  before reducing it modulo \<open>2\<^sup>w\<close>.
\<close>

fun ToIntegral :: "JSNumber \<Rightarrow> int" where
  "ToIntegral NaN = 0"
| "ToIntegral (Finite x) = (if 0 \<le> x then \<lfloor>x\<rfloor> else \<lceil>x\<rceil>)"

text \<open>
  \<^verbatim>\<open>SetViewValue\<close> and \<^verbatim>\<open>GetViewValue\<close> of ECMAScript: a \<^verbatim>\<open>RangeError\<close> unless the element lies
  inside the view.  The value is converted before the range is checked.
\<close>

definition SetViewValue :: "byte list \<Rightarrow> nat \<Rightarrow> bool \<Rightarrow> byte list \<Rightarrow> JSError + byte list" where
  "SetViewValue view byteOffset littleEndian rawBytes =
     (if byteOffset + length rawBytes \<le> length view
      then Inr (take byteOffset view @ (if littleEndian then rawBytes else rev rawBytes)
                @ drop (byteOffset + length rawBytes) view)
      else Inl RangeError)"

definition GetViewValue :: "byte list \<Rightarrow> nat \<Rightarrow> bool \<Rightarrow> nat \<Rightarrow> JSError + byte list" where
  "GetViewValue view byteOffset littleEndian n =
     (if byteOffset + n \<le> length view
      then Inr (let rawBytes = take n (drop byteOffset view)
                in if littleEndian then rawBytes else rev rawBytes)
      else Inl RangeError)"

definition setInteger :: "nat \<Rightarrow> byte list \<Rightarrow> nat \<Rightarrow> JSValue \<Rightarrow> bool \<Rightarrow> JSError + byte list" where
  "setInteger n view byteOffset value littleEndian =
     (case ToNumber value of
        Inl e \<Rightarrow> Inl e
      | Inr x \<Rightarrow> SetViewValue view byteOffset littleEndian (le_bytes n (ToIntegral x)))"

definition setUint8 :: "byte list \<Rightarrow> nat \<Rightarrow> JSValue \<Rightarrow> JSError + byte list" where
  "setUint8 view byteOffset value = setInteger 1 view byteOffset value True"

definition setInt8 :: "byte list \<Rightarrow> nat \<Rightarrow> JSValue \<Rightarrow> JSError + byte list" where
  "setInt8 view byteOffset value = setInteger 1 view byteOffset value True"

definition setUint16 :: "byte list \<Rightarrow> nat \<Rightarrow> JSValue \<Rightarrow> bool \<Rightarrow> JSError + byte list" where
  "setUint16 view byteOffset value littleEndian = setInteger 2 view byteOffset value littleEndian"

definition setInt16 :: "byte list \<Rightarrow> nat \<Rightarrow> JSValue \<Rightarrow> bool \<Rightarrow> JSError + byte list" where
  "setInt16 view byteOffset value littleEndian = setInteger 2 view byteOffset value littleEndian"

definition setUint32 :: "byte list \<Rightarrow> nat \<Rightarrow> JSValue \<Rightarrow> bool \<Rightarrow> JSError + byte list" where
  "setUint32 view byteOffset value littleEndian = setInteger 4 view byteOffset value littleEndian"

definition setInt32 :: "byte list \<Rightarrow> nat \<Rightarrow> JSValue \<Rightarrow> bool \<Rightarrow> JSError + byte list" where
  "setInt32 view byteOffset value littleEndian = setInteger 4 view byteOffset value littleEndian"

text \<open>The 64-bit setters take a bigint, which the caller has produced with \<^verbatim>\<open>BigInt(...)\<close>.\<close>

definition setBigUint64 :: "byte list \<Rightarrow> nat \<Rightarrow> int \<Rightarrow> bool \<Rightarrow> JSError + byte list" where
  "setBigUint64 view byteOffset value littleEndian =
     SetViewValue view byteOffset littleEndian (le_bytes 8 value)"

definition setBigInt64 :: "byte list \<Rightarrow> nat \<Rightarrow> int \<Rightarrow> bool \<Rightarrow> JSError + byte list" where
  "setBigInt64 view byteOffset value littleEndian =
     SetViewValue view byteOffset littleEndian (le_bytes 8 value)"

definition setFloat32 ::
  "Platform \<Rightarrow> byte list \<Rightarrow> nat \<Rightarrow> JSValue \<Rightarrow> bool \<Rightarrow> JSError + byte list" where
  "setFloat32 P view byteOffset value littleEndian =
     (case ToNumber value of
        Inl e \<Rightarrow> Inl e
      | Inr x \<Rightarrow> SetViewValue view byteOffset littleEndian (le_bytes 4 (uint (to_float32 P x))))"

definition setFloat64 ::
  "Platform \<Rightarrow> byte list \<Rightarrow> nat \<Rightarrow> JSValue \<Rightarrow> bool \<Rightarrow> JSError + byte list" where
  "setFloat64 P view byteOffset value littleEndian =
     (case ToNumber value of
        Inl e \<Rightarrow> Inl e
      | Inr x \<Rightarrow> SetViewValue view byteOffset littleEndian (le_bytes 8 (uint (to_float64 P x))))"

definition getUnsigned :: "nat \<Rightarrow> byte list \<Rightarrow> nat \<Rightarrow> bool \<Rightarrow> JSError + int" where
  "getUnsigned n view byteOffset littleEndian =
     (case GetViewValue view byteOffset littleEndian n of
        Inl e \<Rightarrow> Inl e
      | Inr rawBytes \<Rightarrow> Inr (le_val rawBytes))"

definition getSigned :: "nat \<Rightarrow> byte list \<Rightarrow> nat \<Rightarrow> bool \<Rightarrow> JSError + int" where
  "getSigned n view byteOffset littleEndian =
     (case GetViewValue view byteOffset littleEndian n of
        Inl e \<Rightarrow> Inl e
      | Inr rawBytes \<Rightarrow> Inr (to_signed (8 * n) (le_val rawBytes)))"

definition getUint8 :: "byte list \<Rightarrow> nat \<Rightarrow> JSError + int" where
  "getUint8 view byteOffset = getUnsigned 1 view byteOffset True"

definition getInt8 :: "byte list \<Rightarrow> nat \<Rightarrow> JSError + int" where
  "getInt8 view byteOffset = getSigned 1 view byteOffset True"

definition getUint16 :: "byte list \<Rightarrow> nat \<Rightarrow> bool \<Rightarrow> JSError + int" where
  "getUint16 view byteOffset littleEndian = getUnsigned 2 view byteOffset littleEndian"

definition getInt16 :: "byte list \<Rightarrow> nat \<Rightarrow> bool \<Rightarrow> JSError + int" where
  "getInt16 view byteOffset littleEndian = getSigned 2 view byteOffset littleEndian"

definition getUint32 :: "byte list \<Rightarrow> nat \<Rightarrow> bool \<Rightarrow> JSError + int" where
  "getUint32 view byteOffset littleEndian = getUnsigned 4 view byteOffset littleEndian"

definition getInt32 :: "byte list \<Rightarrow> nat \<Rightarrow> bool \<Rightarrow> JSError + int" where
  "getInt32 view byteOffset littleEndian = getSigned 4 view byteOffset littleEndian"

definition getBigUint64 :: "byte list \<Rightarrow> nat \<Rightarrow> bool \<Rightarrow> JSError + int" where
  "getBigUint64 view byteOffset littleEndian = getUnsigned 8 view byteOffset littleEndian"

definition getBigInt64 :: "byte list \<Rightarrow> nat \<Rightarrow> bool \<Rightarrow> JSError + int" where
  "getBigInt64 view byteOffset littleEndian = getSigned 8 view byteOffset littleEndian"

definition getFloat32 :: "Platform \<Rightarrow> byte list \<Rightarrow> nat \<Rightarrow> bool \<Rightarrow> JSError + JSValue" where
  "getFloat32 P view byteOffset littleEndian =
     (case GetViewValue view byteOffset littleEndian 4 of
        Inl e \<Rightarrow> Inl e
      | Inr rawBytes \<Rightarrow> Inr (from_float32 P (word_of_int (le_val rawBytes))))"

definition getFloat64 :: "Platform \<Rightarrow> byte list \<Rightarrow> nat \<Rightarrow> bool \<Rightarrow> JSError + JSValue" where
  "getFloat64 P view byteOffset littleEndian =
     (case GetViewValue view byteOffset littleEndian 8 of
        Inl e \<Rightarrow> Inl e
      | Inr rawBytes \<Rightarrow> Inr (from_float64 P (word_of_int (le_val rawBytes))))"

section \<open>Struct encoder and decoder (src/structs/encoder.ts)\<close>

text \<open>The state of a \<^verbatim>\<open>StructEncoder\<close> is its list of retained allocations.\<close>

record StructEncoder =
  allocations :: "byte list list"

record EncodedStruct =
  es_buffer :: "byte list"
  es_ptr :: Pointer
  es_size :: nat

record StringView =
  sv_data :: Pointer
  sv_length :: nat

text \<open>The table \<^verbatim>\<open>sizes\<close> of \<^verbatim>\<open>getTypeSize\<close>.\<close>

fun getTypeSize :: "PrimitiveType \<Rightarrow> nat" where
  "getTypeSize U8 = 1"
| "getTypeSize I8 = 1"
| "getTypeSize U16 = 2"
| "getTypeSize I16 = 2"
| "getTypeSize U32 = 4"
| "getTypeSize I32 = 4"
| "getTypeSize U64 = 8"
| "getTypeSize I64 = 8"
| "getTypeSize F32 = 4"
| "getTypeSize F64 = 8"
| "getTypeSize Ptr = 8"
| "getTypeSize Usize = 8"
| "getTypeSize Bool = 4"

text \<open>
  \<^verbatim>\<open>writePrimitive\<close>: one \<^verbatim>\<open>DataView\<close> setter per kind, little-endian.  The casts
  \<^verbatim>\<open>value as number\<close> are erased at run time, so the setter converts whatever value arrives.
  For \<^verbatim>\<open>ptr\<close> the value passes through \<^verbatim>\<open>?? 0\<close> first.
\<close>

fun writePrimitive ::
  "Platform \<Rightarrow> byte list \<Rightarrow> nat \<Rightarrow> PrimitiveType \<Rightarrow> JSValue \<Rightarrow> JSError + byte list" where
  "writePrimitive P view offset U8 value = setUint8 view offset value"
| "writePrimitive P view offset I8 value = setInt8 view offset value"
| "writePrimitive P view offset U16 value = setUint16 view offset value True"
| "writePrimitive P view offset I16 value = setInt16 view offset value True"
| "writePrimitive P view offset U32 value = setUint32 view offset value True"
| "writePrimitive P view offset Bool value = setUint32 view offset value True"
| "writePrimitive P view offset I32 value = setInt32 view offset value True"
| "writePrimitive P view offset U64 value =
     (case BigInt_of P value of Inl e \<Rightarrow> Inl e | Inr n \<Rightarrow> setBigUint64 view offset n True)"
| "writePrimitive P view offset Usize value =
     (case BigInt_of P value of Inl e \<Rightarrow> Inl e | Inr n \<Rightarrow> setBigUint64 view offset n True)"
| "writePrimitive P view offset I64 value =
     (case BigInt_of P value of Inl e \<Rightarrow> Inl e | Inr n \<Rightarrow> setBigInt64 view offset n True)"
| "writePrimitive P view offset F32 value = setFloat32 P view offset value True"
| "writePrimitive P view offset F64 value = setFloat64 P view offset value True"
| "writePrimitive P view offset Ptr value =
     (case BigInt_of P (if value = Undefined \<or> value = Null then Num 0 else value) of
        Inl e \<Rightarrow> Inl e
      | Inr n \<Rightarrow> setBigUint64 view offset n True)"

text \<open>
  The loop of the array branch of \<^verbatim>\<open>writeField\<close>.  The condition
  \<^verbatim>\<open>i < type.count && i < arr.length\<close> reads \<^verbatim>\<open>arr.length\<close> only when the first conjunct holds.
\<close>

function writeArray ::
  "Platform \<Rightarrow> byte list \<Rightarrow> nat \<Rightarrow> PrimitiveType \<Rightarrow> nat \<Rightarrow> JSValue \<Rightarrow> nat \<Rightarrow> JSError + byte list" where
  "writeArray P view offset array count arr i =
     (if i < count then
        (case getProperty P arr ''length'' of
           Inl e \<Rightarrow> Inl e
         | Inr len \<Rightarrow>
             (case js_less i len of
                Inl e \<Rightarrow> Inl e
              | Inr False \<Rightarrow> Inr view
              | Inr True \<Rightarrow>
                  (case getElement P arr i of
                     Inl e \<Rightarrow> Inl e
                   | Inr x \<Rightarrow>
                       (case writePrimitive P view (offset + i * getTypeSize array) array x of
                          Inl e \<Rightarrow> Inl e
                        | Inr view1 \<Rightarrow> writeArray P view1 offset array count arr (Suc i)))))
      else Inr view)"
  by pat_completeness auto
termination
  by (relation "measure (\<lambda>(P, view, offset, array, count, arr, i). count - i)") auto

declare writeArray.simps [simp del]

text \<open>
  \<^verbatim>\<open>writeField\<close>, with the loop over the fields of a nested struct as \<open>writeNested\<close>.  The
  parameter \<^verbatim>\<open>u8\<close> of the source is a second view of the same buffer that no branch writes
  through; the model has the one buffer.
\<close>

function writeField ::
    "Platform \<Rightarrow> byte list \<Rightarrow> nat \<Rightarrow> FieldType \<Rightarrow> JSValue \<Rightarrow> JSError + byte list"
  and writeNested ::
    "Platform \<Rightarrow> byte list \<Rightarrow> nat \<Rightarrow> FieldLayout list \<Rightarrow> JSValue \<Rightarrow> JSError + byte list" where
  "writeField P view offset (Prim type) value = writePrimitive P view offset type value"
| "writeField P view offset (Struct nestedLayout) value =
     writeNested P view offset (sl_fields nestedLayout) value"
| "writeField P view offset (Array array count) value =
     writeArray P view offset array count value 0"
| "writeNested P view offset [] nestedValue = Inr view"
| "writeNested P view offset (nestedField # rest) nestedValue =
     (case getProperty P nestedValue (fl_name nestedField) of
        Inl e \<Rightarrow> Inl e
      | Inr fieldValue \<Rightarrow>
          if fieldValue \<noteq> Undefined then
            (case writeField P view (offset + fl_offset nestedField) (fl_type nestedField) fieldValue of
               Inl e \<Rightarrow> Inl e
             | Inr view1 \<Rightarrow> writeNested P view1 offset rest nestedValue)
          else writeNested P view offset rest nestedValue)"
  by pat_completeness auto
termination
proof (relation "measure (\<lambda>x. case x of
          Inl (P, view, offset, type, value) \<Rightarrow> size type
        | Inr (P, view, offset, nestedFields, value) \<Rightarrow> size_list size nestedFields)",
       goal_cases)
  case 1
  show ?case by simp
next
  case (2 P view offset nestedLayout "value")
  show ?case by (cases nestedLayout) simp
next
  case (3 P view offset nestedField rest nestedValue fieldValue)
  show ?case by (cases nestedField) simp
next
  case (4 P view offset nestedField rest nestedValue fieldValue view1)
  show ?case by simp
next
  case (5 P view offset nestedField rest nestedValue fieldValue)
  show ?case by simp
qed

text \<open>
  \<^verbatim>\<open>encode\<close>: a zero-filled buffer of \<^verbatim>\<open>layout.size\<close> bytes, the loop over the fields of the
  layout, then the buffer is retained.  \<^verbatim>\<open>values[field.name]\<close> is a property lookup on a
  plain record, so a field that the value map has no entry for is skipped unless its name
  is one that every record inherits.  An error thrown by a write leaves the encoder as
  it was.
\<close>

fun encode_loop ::
  "Platform \<Rightarrow> byte list \<Rightarrow> FieldLayout list \<Rightarrow> (string \<times> JSValue) list \<Rightarrow> JSError + byte list" where
  "encode_loop P view [] values = Inr view"
| "encode_loop P view (field # rest) values =
     (let value = recordGet values (fl_name field)
      in if value \<noteq> Undefined then
           (case writeField P view (fl_offset field) (fl_type field) value of
              Inl e \<Rightarrow> Inl e
            | Inr view1 \<Rightarrow> encode_loop P view1 rest values)
         else encode_loop P view rest values)"

definition encode ::
  "Platform \<Rightarrow> StructEncoder \<Rightarrow> StructLayout \<Rightarrow> (string \<times> JSValue) list
     \<Rightarrow> JSError + (EncodedStruct \<times> StructEncoder)" where
  "encode P this layout values =
     (case encode_loop P (replicate (sl_size layout) 0) (sl_fields layout) values of
        Inl e \<Rightarrow> Inl e
      | Inr u8 \<Rightarrow>
          Inr (\<lparr>es_buffer = u8, es_ptr = ffi_ptr P u8, es_size = sl_size layout\<rparr>,
               this\<lparr>allocations := allocations this @ [u8]\<rparr>))"

text \<open>
  Text is modelled by its UTF-8 bytes, so \<^verbatim>\<open>TextEncoder.encode\<close> maps characters to bytes
  and \<^verbatim>\<open>TextDecoder.decode\<close> maps them back.  The latter is exact on well-formed UTF-8, in
  particular on ASCII; its replacement of malformed sequences is outside the model.
\<close>

definition TextEncoder_encode :: "string \<Rightarrow> byte list" where
  "TextEncoder_encode str = map of_char str"

definition TextDecoder_decode :: "byte list \<Rightarrow> string" where
  "TextDecoder_decode bytes = map (\<lambda>b. char_of (unat b)) bytes"

definition encodeString :: "Platform \<Rightarrow> StructEncoder \<Rightarrow> string \<Rightarrow> StringView \<times> StructEncoder" where
  "encodeString P this str =
     (if str = [] then (\<lparr>sv_data = 0, sv_length = 0\<rparr>, this)
      else let encoded = TextEncoder_encode str
           in (\<lparr>sv_data = ffi_ptr P encoded, sv_length = length encoded\<rparr>,
               this\<lparr>allocations := allocations this @ [encoded]\<rparr>))"

text \<open>
  \<^verbatim>\<open>ptrArray\<close> and \<^verbatim>\<open>u32Array\<close>: the typed arrays \<^verbatim>\<open>BigUint64Array\<close> and \<^verbatim>\<open>Uint32Array\<close> store
  their elements in the byte order of the platform, which is little-endian.
\<close>

definition ptrArray :: "Platform \<Rightarrow> StructEncoder \<Rightarrow> Pointer list \<Rightarrow> Pointer \<times> StructEncoder" where
  "ptrArray P this pointers =
     (if length pointers = 0 then (0, this)
      else let u8 = concat (map (\<lambda>p. le_bytes 8 (int p)) pointers)
           in (ffi_ptr P u8, this\<lparr>allocations := allocations this @ [u8]\<rparr>))"

definition u32Array :: "Platform \<Rightarrow> StructEncoder \<Rightarrow> int list \<Rightarrow> Pointer \<times> StructEncoder" where
  "u32Array P this values =
     (if length values = 0 then (0, this)
      else let u8 = concat (map (le_bytes 4) values)
           in (ffi_ptr P u8, this\<lparr>allocations := allocations this @ [u8]\<rparr>))"

text \<open>\<^verbatim>\<open>StructDecoder\<close>: the read methods over the view of the decoder's buffer.\<close>

definition readU8 :: "byte list \<Rightarrow> nat \<Rightarrow> JSError + JSValue" where
  "readU8 view offset = map_sum id (\<lambda>n. Num (of_int n)) (getUint8 view offset)"

definition readI8 :: "byte list \<Rightarrow> nat \<Rightarrow> JSError + JSValue" where
  "readI8 view offset = map_sum id (\<lambda>n. Num (of_int n)) (getInt8 view offset)"

definition readU16 :: "byte list \<Rightarrow> nat \<Rightarrow> JSError + JSValue" where
  "readU16 view offset = map_sum id (\<lambda>n. Num (of_int n)) (getUint16 view offset True)"

definition readI16 :: "byte list \<Rightarrow> nat \<Rightarrow> JSError + JSValue" where
  "readI16 view offset = map_sum id (\<lambda>n. Num (of_int n)) (getInt16 view offset True)"

definition readU32 :: "byte list \<Rightarrow> nat \<Rightarrow> JSError + JSValue" where
  "readU32 view offset = map_sum id (\<lambda>n. Num (of_int n)) (getUint32 view offset True)"

definition readI32 :: "byte list \<Rightarrow> nat \<Rightarrow> JSError + JSValue" where
  "readI32 view offset = map_sum id (\<lambda>n. Num (of_int n)) (getInt32 view offset True)"

definition readU64 :: "byte list \<Rightarrow> nat \<Rightarrow> JSError + JSValue" where
  "readU64 view offset = map_sum id BigInt (getBigUint64 view offset True)"

definition readI64 :: "byte list \<Rightarrow> nat \<Rightarrow> JSError + JSValue" where
  "readI64 view offset = map_sum id BigInt (getBigInt64 view offset True)"

definition readF32 :: "Platform \<Rightarrow> byte list \<Rightarrow> nat \<Rightarrow> JSError + JSValue" where
  "readF32 P view offset = getFloat32 P view offset True"

definition readF64 :: "Platform \<Rightarrow> byte list \<Rightarrow> nat \<Rightarrow> JSError + JSValue" where
  "readF64 P view offset = getFloat64 P view offset True"

text \<open>\<^verbatim>\<open>readPtr\<close> converts the bigint with \<^verbatim>\<open>Number(...)\<close>, which is exact below \<open>2\<^sup>5\<^sup>3\<close>.\<close>

definition readPtr :: "byte list \<Rightarrow> nat \<Rightarrow> JSError + JSValue" where
  "readPtr view offset =
     map_sum id (\<lambda>n. Num (Number_of_bigint n)) (getBigUint64 view offset True)"

definition readBool :: "byte list \<Rightarrow> nat \<Rightarrow> JSError + JSValue" where
  "readBool view offset = map_sum id (\<lambda>n. JSBool (n \<noteq> 0)) (getUint32 view offset True)"

section \<open>Callback registry (src/async/callback-registry.ts)\<close>

text \<open>
  The layout \<^verbatim>\<open>WGPURequestAdapterCallbackInfo\<close> of \<^verbatim>\<open>structs/definitions/callbacks.ts\<close> and
  the two enumeration values of \<^verbatim>\<open>ffi/types.ts\<close> that the adapter callback uses.
\<close>

definition WGPURequestAdapterCallbackInfo :: StructLayout where
  "WGPURequestAdapterCallbackInfo =
     defineStruct ''WGPURequestAdapterCallbackInfo''
       [\<lparr>fd_name = ''nextInChain'', fd_type = Prim Ptr\<rparr>,
        \<lparr>fd_name = ''mode'', fd_type = Prim U32\<rparr>,
        \<lparr>fd_name = ''callback'', fd_type = Prim Ptr\<rparr>,
        \<lparr>fd_name = ''userdata1'', fd_type = Prim Ptr\<rparr>,
        \<lparr>fd_name = ''userdata2'', fd_type = Prim Ptr\<rparr>]"

definition WGPUCallbackMode_AllowProcessEvents :: nat where
  "WGPUCallbackMode_AllowProcessEvents = 2"

definition WGPURequestAdapterStatus_Success :: nat where
  "WGPURequestAdapterStatus_Success = 1"

text \<open>
  A promise is pending, fulfilled or rejected.  An entry of the pending map holds the
  \<^verbatim>\<open>resolve\<close> and \<^verbatim>\<open>reject\<close> functions of one promise and one \<^verbatim>\<open>JSCallback\<close>; the model
  names the promise by its index in the list of promises created so far and the callback
  by the token it was created for.
\<close>

datatype PromiseState = Pending | Fulfilled JSValue | Rejected JSError

datatype Settle = Resolve JSValue | Reject JSError

record PendingCallback =
  pc_promise :: nat
  pc_jsCallback :: nat

text \<open>
  The fields \<^verbatim>\<open>pending\<close> (a \<^verbatim>\<open>Map\<close>, in insertion order) and \<^verbatim>\<open>nextId\<close> of the class, together
  with what its methods act on in the runtime: the promises, the log of every call of a
  stored \<^verbatim>\<open>resolve\<close> or \<^verbatim>\<open>reject\<close> (with the token of the entry it was taken from), the
  \<^verbatim>\<open>close\<close> calls deferred with \<^verbatim>\<open>setTimeout\<close>, and the callbacks closed so far.
\<close>

record CallbackRegistry =
  pending :: "(nat \<times> PendingCallback) list"
  nextId :: nat
  promises :: "PromiseState list"
  settle_log :: "(nat \<times> Settle) list"
  timers :: "nat list"
  closed :: "nat list"

definition new_CallbackRegistry :: CallbackRegistry where
  "new_CallbackRegistry =
     \<lparr>pending = [], nextId = 1, promises = [], settle_log = [], timers = [], closed = []\<rparr>"

text \<open>Settling a promise changes it only while it is pending.\<close>

fun settle :: "PromiseState \<Rightarrow> Settle \<Rightarrow> PromiseState" where
  "settle Pending (Resolve v) = Fulfilled v"
| "settle Pending (Reject e) = Rejected e"
| "settle (Fulfilled v) x = Fulfilled v"
| "settle (Rejected e) x = Rejected e"

text \<open>A call \<^verbatim>\<open>pending.resolve(v)\<close> or \<^verbatim>\<open>pending.reject(e)\<close> of the entry stored under a token.\<close>

definition call_settle :: "nat \<Rightarrow> PendingCallback \<Rightarrow> Settle \<Rightarrow> CallbackRegistry \<Rightarrow> CallbackRegistry" where
  "call_settle token entry x this =
     this\<lparr>settle_log := settle_log this @ [(token, x)],
          promises :=
            (if pc_promise entry < length (promises this)
             then (promises this)[pc_promise entry := settle (promises this ! pc_promise entry) x]
             else promises this)\<rparr>"

text \<open>
  A length as it reaches \<^verbatim>\<open>memory.readString\<close>.  The parameter is declared a \<^verbatim>\<open>number\<close>, and
  \<^verbatim>\<open>parseCompilationInfo\<close> passes one, made with \<^verbatim>\<open>Number(...)\<close>.  The adapter trampoline
  passes its argument \<^verbatim>\<open>messageLength\<close> on as it received it; the argument is declared
  \<^verbatim>\<open>"usize"\<close> in the \<^verbatim>\<open>JSCallback\<close>, and the runtime hands a \<^verbatim>\<open>usize\<close> to the function as a
  bigint.
\<close>

datatype NativeLength = AsNumber nat | AsBigInt nat

text \<open>
  \<^verbatim>\<open>toArrayBuffer(pointer, byteOffset, length)\<close> of \<^verbatim>\<open>bun:ffi\<close>: the bytes of the process
  memory from the address on.  It raises a \<^verbatim>\<open>TypeError\<close> for a length that is a bigint.
\<close>

fun toArrayBuffer :: "Platform \<Rightarrow> Pointer \<Rightarrow> nat \<Rightarrow> NativeLength \<Rightarrow> JSError + byte list" where
  "toArrayBuffer P pointer byteOffset (AsNumber len) =
     Inr (map (\<lambda>i. native_memory P (pointer + byteOffset + i)) [0..<len])"
| "toArrayBuffer P pointer byteOffset (AsBigInt len) = Inl TypeError"

text \<open>
  \<^verbatim>\<open>memory.readString\<close> of \<^verbatim>\<open>ffi/index.ts\<close>.  The test \<^verbatim>\<open>length === 0\<close> is false for every
  bigint, also for \<^verbatim>\<open>0n\<close>.
\<close>

definition readString :: "Platform \<Rightarrow> Pointer \<Rightarrow> NativeLength \<Rightarrow> JSError + string" where
  "readString P pointer len =
     (if pointer = 0 \<or> len = AsNumber 0 then Inr []
      else case toArrayBuffer P pointer 0 len of
             Inl e \<Rightarrow> Inl e
           | Inr buffer \<Rightarrow> Inr (TextDecoder_decode buffer))"

text \<open>
  The function that \<^verbatim>\<open>createAdapterCallback\<close> wraps in a \<^verbatim>\<open>JSCallback\<close>.  It finds its entry
  through \<^verbatim>\<open>userdata1\<close>, so all adapter trampolines of one registry are this one function.
  The native side passes a status, three addresses (a null address arrives as \<^verbatim>\<open>null\<close>, for
  which \<^verbatim>\<open>Number(userdata1)\<close> is 0) and the length of the message, which arrives as a
  bigint.  The result is the error the function threw, if any, and the registry it leaves
  behind: an error thrown by \<^verbatim>\<open>memory.readString\<close> leaves the function after
  \<^verbatim>\<open>pending.delete\<close> and before \<^verbatim>\<open>pending.reject\<close> and \<^verbatim>\<open>setTimeout\<close>.
\<close>

definition adapterCallback ::
  "Platform \<Rightarrow> CallbackRegistry \<Rightarrow> nat \<Rightarrow> Pointer \<Rightarrow> Pointer \<Rightarrow> nat \<Rightarrow> Pointer \<Rightarrow> Pointer
     \<Rightarrow> JSError option \<times> CallbackRegistry" where
  "adapterCallback P this status adapter messageData messageLength userdata1 userdata2 =
     (let pendingId = userdata1 in
      case map_of (pending this) pendingId of
        None \<Rightarrow> (None, this)
      | Some entry \<Rightarrow>
          let this1 = this\<lparr>pending := AList.delete pendingId (pending this)\<rparr> in
          case (if status = WGPURequestAdapterStatus_Success
                then Inr (call_settle pendingId entry
                            (Resolve (if adapter = 0 then Null else Num (of_nat adapter))) this1)
                else
                  case (if messageLength > 0
                        then readString P messageData (AsBigInt messageLength)
                        else Inr ''Unknown error'') of
                    Inl e \<Rightarrow> Inl e
                  | Inr message \<Rightarrow>
                      Inr (call_settle pendingId entry
                             (Reject (Error (''Failed to request adapter (status '' @ decimal status
                                             @ ''): '' @ message))) this1)) of
            Inl e \<Rightarrow> (Some e, this1)
          | Inr this2 \<Rightarrow> (None, this2\<lparr>timers := timers this2 @ [pc_jsCallback entry]\<rparr>))"

text \<open>
  \<^verbatim>\<open>createAdapterCallback\<close>: the token, the trampoline, the promise whose executor stores
  the entry, and the encoded callback info.  The result is the error of \<^verbatim>\<open>encode\<close> or the
  pair of the descriptor's address and the promise; the registry has changed either way.
\<close>

definition createAdapterCallback ::
  "Platform \<Rightarrow> CallbackRegistry \<Rightarrow> StructEncoder
     \<Rightarrow> (JSError + Pointer \<times> nat) \<times> CallbackRegistry \<times> StructEncoder" where
  "createAdapterCallback P this encoder =
     (let id = nextId this;
          promise = length (promises this);
          this1 = this\<lparr>nextId := id + 1,
                       promises := promises this @ [Pending],
                       pending := AList.update id \<lparr>pc_promise = promise, pc_jsCallback = id\<rparr>
                                    (pending this)\<rparr>
      in case encode P encoder WGPURequestAdapterCallbackInfo
                [(''nextInChain'', Num 0),
                 (''mode'', Num (of_nat WGPUCallbackMode_AllowProcessEvents)),
                 (''callback'', Num (of_nat (callback_ptr P id))),
                 (''userdata1'', Num (of_nat id)),
                 (''userdata2'', Num 0)] of
           Inl e \<Rightarrow> (Inl e, this1, encoder)
         | Inr (encoded, encoder1) \<Rightarrow> (Inr (es_ptr encoded, promise), this1, encoder1))"

text \<open>
  \<^verbatim>\<open>cleanup\<close>: the body of its loop rejects and closes one entry; the loop visits the
  entries in the order of the map, which is then cleared.
\<close>

definition cleanup_step :: "CallbackRegistry \<Rightarrow> nat \<times> PendingCallback \<Rightarrow> CallbackRegistry" where
  "cleanup_step this = (\<lambda>(token, entry).
     (call_settle token entry (Reject (Error ''Callback registry cleaned up'')) this)
       \<lparr>closed := closed this @ [pc_jsCallback entry]\<rparr>)"

definition cleanup :: "CallbackRegistry \<Rightarrow> CallbackRegistry" where
  "cleanup this = (foldl cleanup_step this (pending this))\<lparr>pending := []\<rparr>"

definition pendingCount :: "CallbackRegistry \<Rightarrow> nat" where
  "pendingCount this = length (pending this)"

section \<open>Polling (src/async/polling.ts)\<close>

text \<open>
  \<^verbatim>\<open>pollUntilComplete\<close> observes its promise through the flag \<^verbatim>\<open>resolved\<close> that the
  \<^verbatim>\<open>then\<close>/\<^verbatim>\<open>catch\<close> handlers set.  What the loop sees is given by \<open>observed i\<close>: the state of
  the promise when the loop condition is evaluated after \<open>i\<close> completed iterations (each
  iteration pumps \<^verbatim>\<open>wgpuInstanceProcessEvents\<close> and awaits a timer).  The result carries the
  number of iterations performed.
\<close>

record PollOptions =
  maxIterations :: "nat option"
  intervalMs :: "nat option"

function poll_loop :: "(nat \<Rightarrow> PromiseState) \<Rightarrow> nat \<Rightarrow> nat \<Rightarrow> nat" where
  "poll_loop observed maxIter iterations =
     (if observed iterations = Pending \<and> iterations < maxIter
      then poll_loop observed maxIter (Suc iterations)
      else iterations)"
  by pat_completeness auto
termination
  by (relation "measure (\<lambda>(observed, maxIter, iterations). maxIter - iterations)") auto

declare poll_loop.simps [simp del]

definition pollUntilComplete ::
  "(nat \<Rightarrow> PromiseState) \<Rightarrow> PollOptions \<Rightarrow> (JSError + JSValue) \<times> nat" where
  "pollUntilComplete observed options =
     (let maxIter = (case maxIterations options of None \<Rightarrow> 10000 | Some m \<Rightarrow> m);
          iterations = poll_loop observed maxIter 0
      in (case observed iterations of
            Pending \<Rightarrow>
              Inl (Error (''Polling timed out after '' @ decimal iterations @ '' iterations''))
          | Rejected error \<Rightarrow> Inl error
          | Fulfilled result \<Rightarrow> Inr result,
          iterations))"

section \<open>Notions used to state the properties\<close>

text \<open>
  The read method of \<^verbatim>\<open>StructDecoder\<close> that matches a primitive kind.  There is no
  \<^verbatim>\<open>readUsize\<close>; a \<^verbatim>\<open>usize\<close> is written with \<^verbatim>\<open>setBigUint64\<close> and so is read with \<^verbatim>\<open>readU64\<close>.
\<close>

fun readPrimitive :: "Platform \<Rightarrow> byte list \<Rightarrow> nat \<Rightarrow> PrimitiveType \<Rightarrow> JSError + JSValue" where
  "readPrimitive P view offset U8 = readU8 view offset"
| "readPrimitive P view offset I8 = readI8 view offset"
| "readPrimitive P view offset U16 = readU16 view offset"
| "readPrimitive P view offset I16 = readI16 view offset"
| "readPrimitive P view offset U32 = readU32 view offset"
| "readPrimitive P view offset I32 = readI32 view offset"
| "readPrimitive P view offset U64 = readU64 view offset"
| "readPrimitive P view offset Usize = readU64 view offset"
| "readPrimitive P view offset I64 = readI64 view offset"
| "readPrimitive P view offset F32 = readF32 P view offset"
| "readPrimitive P view offset F64 = readF64 P view offset"
| "readPrimitive P view offset Ptr = readPtr view offset"
| "readPrimitive P view offset Bool = readBool view offset"

text \<open>
  A value is representable in a primitive kind when it has the JavaScript type that the
  matching read method returns and lies in the range of the kind: an integral number for
  the kinds of up to 32 bits and for \<^verbatim>\<open>ptr\<close> (below \<open>2\<^sup>5\<^sup>3\<close>, where \<^verbatim>\<open>Number\<close> is exact), a
  bigint for the 64-bit kinds, a boolean for \<^verbatim>\<open>bool\<close>, and for the float kinds a number
  that the platform's conversion to the float format and back returns unchanged.
\<close>

definition integer_between :: "int \<Rightarrow> rat \<Rightarrow> int \<Rightarrow> bool" where
  "integer_between lo x hi = (is_integer x \<and> of_int lo \<le> x \<and> x < of_int hi)"

fun representable :: "Platform \<Rightarrow> PrimitiveType \<Rightarrow> JSValue \<Rightarrow> bool" where
  "representable P U8 v = (case v of Num x \<Rightarrow> integer_between 0 x (2 ^ 8) | _ \<Rightarrow> False)"
| "representable P I8 v = (case v of Num x \<Rightarrow> integer_between (- (2 ^ 7)) x (2 ^ 7) | _ \<Rightarrow> False)"
| "representable P U16 v = (case v of Num x \<Rightarrow> integer_between 0 x (2 ^ 16) | _ \<Rightarrow> False)"
| "representable P I16 v = (case v of Num x \<Rightarrow> integer_between (- (2 ^ 15)) x (2 ^ 15) | _ \<Rightarrow> False)"
| "representable P U32 v = (case v of Num x \<Rightarrow> integer_between 0 x (2 ^ 32) | _ \<Rightarrow> False)"
| "representable P I32 v = (case v of Num x \<Rightarrow> integer_between (- (2 ^ 31)) x (2 ^ 31) | _ \<Rightarrow> False)"
| "representable P U64 v = (case v of BigInt n \<Rightarrow> 0 \<le> n \<and> n < 2 ^ 64 | _ \<Rightarrow> False)"
| "representable P Usize v = (case v of BigInt n \<Rightarrow> 0 \<le> n \<and> n < 2 ^ 64 | _ \<Rightarrow> False)"
| "representable P I64 v = (case v of BigInt n \<Rightarrow> - (2 ^ 63) \<le> n \<and> n < 2 ^ 63 | _ \<Rightarrow> False)"
| "representable P F32 v =
     (case v of Num x \<Rightarrow> from_float32 P (to_float32 P (Finite x)) = Num x | _ \<Rightarrow> False)"
| "representable P F64 v =
     (case v of Num x \<Rightarrow> from_float64 P (to_float64 P (Finite x)) = Num x | _ \<Rightarrow> False)"
| "representable P Ptr v = (case v of Num x \<Rightarrow> integer_between 0 x (2 ^ 53) | _ \<Rightarrow> False)"
| "representable P Bool v = (case v of JSBool b \<Rightarrow> True | _ \<Rightarrow> False)"

text \<open>
  A value fits a field type: a representable value for a primitive field; a record that
  covers the fields of the nested layout, each with a value that fits; an array of at most
  \<^verbatim>\<open>count\<close> representable elements.  A value map fits a list of fields when it has an
  entry of its own for every field, with a value that fits the field.
\<close>

function fits_type :: "Platform \<Rightarrow> FieldType \<Rightarrow> JSValue \<Rightarrow> bool"
  and fits_fields :: "Platform \<Rightarrow> FieldLayout list \<Rightarrow> (string \<times> JSValue) list \<Rightarrow> bool" where
  "fits_type P (Prim k) v = representable P k v"
| "fits_type P (Struct L) v = (case v of Obj kvs \<Rightarrow> fits_fields P (sl_fields L) kvs | _ \<Rightarrow> False)"
| "fits_type P (Array k c) v =
     (case v of Arr xs \<Rightarrow> length xs \<le> c \<and> list_all (representable P k) xs | _ \<Rightarrow> False)"
| "fits_fields P [] kvs = True"
| "fits_fields P (f # fs) kvs =
     ((case map_of kvs (fl_name f) of
         None \<Rightarrow> False
       | Some v \<Rightarrow> fits_type P (fl_type f) v)
      \<and> fits_fields P fs kvs)"
  by pat_completeness auto
termination
proof (relation "measure (\<lambda>x. case x of
          Inl (P, t, v) \<Rightarrow> size t
        | Inr (P, fs, kvs) \<Rightarrow> size_list size fs)",
       goal_cases)
  case 1
  show ?case by simp
next
  case (2 P L v kvs)
  show ?case by (cases L) simp
next
  case (3 P f fs kvs v)
  show ?case by (cases f) simp
next
  case (4 P f fs kvs)
  show ?case by simp
qed

text \<open>
  Reading a value back: the matching read method at the field's offset returns the value;
  for a nested struct the entry of every nested field is read back at the struct's offset
  plus the nested field's offset; for an array element \<open>i\<close> is read back at the array's
  offset plus \<open>i\<close> times the element size.
\<close>

function reads_back :: "Platform \<Rightarrow> byte list \<Rightarrow> nat \<Rightarrow> FieldType \<Rightarrow> JSValue \<Rightarrow> bool"
  and reads_back_fields ::
    "Platform \<Rightarrow> byte list \<Rightarrow> nat \<Rightarrow> FieldLayout list \<Rightarrow> (string \<times> JSValue) list \<Rightarrow> bool" where
  "reads_back P view offset (Prim k) v = (readPrimitive P view offset k = Inr v)"
| "reads_back P view offset (Struct L) v =
     (case v of Obj kvs \<Rightarrow> reads_back_fields P view offset (sl_fields L) kvs | _ \<Rightarrow> False)"
| "reads_back P view offset (Array k c) v =
     (case v of
        Arr xs \<Rightarrow>
          list_all (\<lambda>i. readPrimitive P view (offset + i * getTypeSize k) k = Inr (xs ! i))
            [0..<length xs]
      | _ \<Rightarrow> False)"
| "reads_back_fields P view offset [] kvs = True"
| "reads_back_fields P view offset (f # fs) kvs =
     ((case map_of kvs (fl_name f) of
         None \<Rightarrow> False
       | Some v \<Rightarrow> reads_back P view (offset + fl_offset f) (fl_type f) v)
      \<and> reads_back_fields P view offset fs kvs)"
  by pat_completeness auto
termination
proof (relation "measure (\<lambda>x. case x of
          Inl (P, view, offset, t, v) \<Rightarrow> size t
        | Inr (P, view, offset, fs, kvs) \<Rightarrow> size_list size fs)",
       goal_cases)
  case 1
  show ?case by simp
next
  case (2 P view offset L v kvs)
  show ?case by (cases L) simp
next
  case (3 P view offset f fs kvs v)
  show ?case by (cases f) simp
next
  case (4 P view offset f fs kvs)
  show ?case by simp
qed

text \<open>
  A layout is laid out in order when its fields follow one another without overlap inside
  the size of the struct, each with the size of its type, and the same holds inside every
  nested layout.  \<open>ordered_fields lo fs hi\<close> says so for the fields \<open>fs\<close> between the byte
  positions \<open>lo\<close> and \<open>hi\<close>.
\<close>

function ordered_type :: "FieldType \<Rightarrow> bool"
  and ordered_fields :: "nat \<Rightarrow> FieldLayout list \<Rightarrow> nat \<Rightarrow> bool" where
  "ordered_type (Prim k) = True"
| "ordered_type (Struct L) = ordered_fields 0 (sl_fields L) (sl_size L)"
| "ordered_type (Array k c) = True"
| "ordered_fields lo [] hi = (lo \<le> hi)"
| "ordered_fields lo (f # fs) hi =
     (lo \<le> fl_offset f \<and> fl_size f = ti_size (getTypeInfo (fl_type f)) \<and> ordered_type (fl_type f)
      \<and> ordered_fields (fl_offset f + fl_size f) fs hi)"
  by pat_completeness auto
termination
proof (relation "measure (\<lambda>x. case x of
          Inl t \<Rightarrow> size t
        | Inr (lo, fs, hi) \<Rightarrow> size_list size fs)",
       goal_cases)
  case 1
  show ?case by simp
next
  case (2 L)
  show ?case by (cases L) simp
next
  case (3 lo f fs hi)
  show ?case by (cases f) simp
next
  case (4 lo f fs hi)
  show ?case by simp
qed

definition ordered_layout :: "StructLayout \<Rightarrow> bool" where
  "ordered_layout L = ordered_fields 0 (sl_fields L) (sl_size L)"

text \<open>Two buffers of one length that agree at every position outside \<open>lo..<hi\<close>.\<close>

definition unchanged_outside :: "byte list \<Rightarrow> byte list \<Rightarrow> nat \<Rightarrow> nat \<Rightarrow> bool" where
  "unchanged_outside view view1 lo hi =
     (length view1 = length view \<and> (\<forall>i<length view. i < lo \<or> hi \<le> i \<longrightarrow> view1 ! i = view ! i))"

text \<open>
  One invocation of the adapter trampoline by the native side, as the tuple of its
  arguments, and a run of invocations.  The native side goes on whether the function
  returned or threw, so an invocation leaves the registry that the function left.
\<close>

record Invocation =
  arg_status :: nat
  arg_adapter :: Pointer
  arg_messageData :: Pointer
  arg_messageLength :: nat
  arg_userdata1 :: Pointer
  arg_userdata2 :: Pointer

definition fire :: "Platform \<Rightarrow> CallbackRegistry \<Rightarrow> Invocation \<Rightarrow> CallbackRegistry" where
  "fire P this call =
     snd (adapterCallback P this (arg_status call) (arg_adapter call) (arg_messageData call)
            (arg_messageLength call) (arg_userdata1 call) (arg_userdata2 call))"

definition fire_all :: "Platform \<Rightarrow> CallbackRegistry \<Rightarrow> Invocation list \<Rightarrow> CallbackRegistry" where
  "fire_all P this calls = foldl (fire P) this calls"

definition calls_for :: "nat \<Rightarrow> CallbackRegistry \<Rightarrow> nat" where
  "calls_for token this = length (filter (\<lambda>c. fst c = token) (settle_log this))"

text \<open>
  The life of a registry: a new registry to which a sequence of events is applied, each a
  call of \<^verbatim>\<open>createAdapterCallback\<close> (with some encoder), an invocation of the trampoline
  by the native side, or a call of \<^verbatim>\<open>cleanup\<close>.
\<close>

datatype Event = Create StructEncoder | Fire Invocation | Cleanup

fun step :: "Platform \<Rightarrow> CallbackRegistry \<Rightarrow> Event \<Rightarrow> CallbackRegistry" where
  "step P this (Create encoder) = fst (snd (createAdapterCallback P this encoder))"
| "step P this (Fire call) = fire P this call"
| "step P this Cleanup = cleanup this"

definition run :: "Platform \<Rightarrow> Event list \<Rightarrow> CallbackRegistry" where
  "run P events = foldl (step P) new_CallbackRegistry events"

text \<open>
  What holds of a registry throughout its life: the tokens of the pending map are distinct
  and below \<^verbatim>\<open>nextId\<close>, its entries hold distinct promises that are still pending, and the
  tokens whose resolver or rejecter has been called are distinct, below \<^verbatim>\<open>nextId\<close>, and no
  longer in the map.
\<close>

definition registry_inv :: "CallbackRegistry \<Rightarrow> bool" where
  "registry_inv this =
     (distinct (map fst (pending this))
      \<and> distinct (map (\<lambda>p. pc_promise (snd p)) (pending this))
      \<and> (\<forall>p\<in>set (pending this).
            fst p < nextId this \<and> pc_promise (snd p) < length (promises this)
            \<and> promises this ! pc_promise (snd p) = Pending)
      \<and> distinct (map fst (settle_log this))
      \<and> (\<forall>c\<in>set (settle_log this). fst c < nextId this \<and> fst c \<notin> fst ` set (pending this)))"

text \<open>
  A platform for concrete scenarios.  Its native memory holds the bytes of \<^verbatim>\<open>"boom"\<close> at
  address 4096.  Its float conversions are those of IEEE 754 on the values the scenarios
  use: 0.5 is \<^verbatim>\<open>0x3F000000\<close> in binary32, 1.5 is \<^verbatim>\<open>0x3FF8000000000000\<close> in binary64, and zero
  is the zero word; on other values they are arbitrary, as are the addresses, the members
  of the prototypes of values that are not records, and the digits of large numbers.
\<close>

definition boom_platform :: Platform where
  "boom_platform =
     \<lparr>to_float32 = (\<lambda>x. if x = Finite (1 / 2) then 0x3F000000 else 0),
      to_float64 = (\<lambda>x. if x = Finite (3 / 2) then 0x3FF8000000000000 else 0),
      from_float32 = (\<lambda>w. if w = 0x3F000000 then Num (1 / 2) else Num 0),
      from_float64 = (\<lambda>w. if w = 0x3FF8000000000000 then Num (3 / 2) else Num 0),
      ffi_ptr = (\<lambda>bytes. 8192), callback_ptr = (\<lambda>id. 12288 + id),
      native_memory = (\<lambda>a. if a = 4096 then 98 else if a = 4097 then 111
                           else if a = 4098 then 111 else if a = 4099 then 109 else 0),
      prototype_member = (\<lambda>v name. Inr Undefined),
      printed_integer = (\<lambda>x. \<lfloor>x\<rfloor>)\<rparr>"

text \<open>
  The registries of the concrete scenarios: a new registry after one and after two calls of
  \<^verbatim>\<open>createAdapterCallback\<close>, each with an encoder of its own.
\<close>

definition one_pending :: CallbackRegistry where
  "one_pending =
     fst (snd (createAdapterCallback boom_platform new_CallbackRegistry \<lparr>allocations = []\<rparr>))"

definition two_pending :: CallbackRegistry where
  "two_pending =
     fst (snd (createAdapterCallback boom_platform one_pending \<lparr>allocations = []\<rparr>))"

text \<open>
  The layouts and the value map of the concrete encoding scenarios: a struct with a
  primitive field, a nested struct, an array, a boolean, a pointer and two floats, and a
  hand-written layout whose two fields overlap.
\<close>

definition inner_layout :: StructLayout where
  "inner_layout =
     defineStruct ''Inner''
       [\<lparr>fd_name = ''x'', fd_type = Prim U16\<rparr>, \<lparr>fd_name = ''y'', fd_type = Prim U64\<rparr>]"

definition outer_layout :: StructLayout where
  "outer_layout =
     defineStruct ''Outer''
       [\<lparr>fd_name = ''tag'', fd_type = Prim U8\<rparr>,
        \<lparr>fd_name = ''inner'', fd_type = Struct inner_layout\<rparr>,
        \<lparr>fd_name = ''data'', fd_type = Array U16 3\<rparr>,
        \<lparr>fd_name = ''flag'', fd_type = Prim Bool\<rparr>,
        \<lparr>fd_name = ''handle'', fd_type = Prim Ptr\<rparr>,
        \<lparr>fd_name = ''ratio'', fd_type = Prim F32\<rparr>,
        \<lparr>fd_name = ''scale'', fd_type = Prim F64\<rparr>]"

definition outer_values :: "(string \<times> JSValue) list" where
  "outer_values =
     [(''tag'', Num 200),
      (''inner'', Obj [(''x'', Num 513), (''y'', BigInt 1099511627783)]),
      (''data'', Arr [Num 1, Num 2]),
      (''flag'', JSBool True),
      (''handle'', Num 4096),
      (''ratio'', Num (1 / 2)),
      (''scale'', Num (3 / 2))]"

definition overlapping_layout :: StructLayout where
  "overlapping_layout =
     StructLayout ''Overlapping''
       [FieldLayout ''a'' (Prim U16) 0 2 2, FieldLayout ''b'' (Prim U8) 1 1 1] 2 2"

definition one_field_layout :: "PrimitiveType \<Rightarrow> StructLayout" where
  "one_field_layout k = defineStruct ''S'' [\<lparr>fd_name = ''a'', fd_type = Prim k\<rparr>]"

section \<open>Properties of the layout engine\<close>

lemma spec_align_eq: "spec_align off a = align off a"
  by (simp add: spec_align_def align_def Let_def)

lemma defineStruct_loop_spec:
  "defineStruct_loop ds off m acc =
     (spec_final_offset off ds,
      Max (insert m (set (map (\<lambda>d. ti_alignment (getTypeInfo (fd_type d))) ds))),
      acc @ spec_offsets off ds)"
proof (induction ds arbitrary: off m acc)
  case Nil
  show ?case by simp
next
  case (Cons d ds)
  have "Max (insert (max m (ti_alignment (getTypeInfo (fd_type d))))
              (set (map (\<lambda>d. ti_alignment (getTypeInfo (fd_type d))) ds)))
      = Max (insert m (set (map (\<lambda>d. ti_alignment (getTypeInfo (fd_type d))) (d # ds))))"
    (is "Max (insert (max m ?a) ?S) = _")
  proof -
    have "Max (insert (max m ?a) ?S) = Max (insert m (insert ?a ?S))"
      by (cases "?S = {}") (simp_all add: max.assoc)
    thus ?thesis by simp
  qed
  with Cons show ?case
    by (simp add: Let_def spec_align_eq)
qed

lemma defineStruct_eq_spec: "defineStruct name ds = spec_computeLayout name ds"
  by (simp add: defineStruct_def spec_computeLayout_def defineStruct_loop_spec
      spec_max_alignment_def spec_align_eq)

lemma align_ge: "off \<le> align off a"
  by (simp add: align_def Let_def)

lemma align_mod: "0 < a \<Longrightarrow> align off a mod a = 0"
proof -
  assume a: "0 < a"
  have r: "off mod a < a" using a by simp
  have "off + (a - off mod a) = off div a * a + (off mod a + (a - off mod a))"
    by (simp add: div_mult_mod_eq)
  also have "\<dots> = off div a * a + a" using r by simp
  finally have "(off + (a - off mod a)) mod a = 0" by simp
  then show ?thesis by (simp add: align_def Let_def)
qed

lemma TYPE_INFO_alignment_pos: "0 < ti_alignment (TYPE_INFO k)"
  by (cases k) simp_all

lemma TYPE_INFO_size_pos: "0 < ti_size (TYPE_INFO k)"
  by (cases k) simp_all

lemma getTypeInfo_alignment_pos:
  "(\<And>L. t = Struct L \<Longrightarrow> 0 < sl_alignment L) \<Longrightarrow> 0 < ti_alignment (getTypeInfo t)"
  by (cases t) (simp_all add: TYPE_INFO_alignment_pos Let_def)

lemma spec_offsets_aligned:
  "\<forall>d\<in>set ds. 0 < ti_alignment (getTypeInfo (fd_type d)) \<Longrightarrow>
   f \<in> set (spec_offsets r ds) \<Longrightarrow> fl_offset f mod fl_alignment f = 0"
  by (induction ds arbitrary: r) (auto simp: Let_def spec_align_eq align_mod)

lemma spec_offsets_lower: "f \<in> set (spec_offsets r ds) \<Longrightarrow> r \<le> fl_offset f"
proof (induction ds arbitrary: r)
  case Nil
  then show ?case by simp
next
  case (Cons d ds)
  let ?o = "align r (ti_alignment (getTypeInfo (fd_type d)))"
  from Cons.prems consider "fl_offset f = ?o"
    | "f \<in> set (spec_offsets (?o + ti_size (getTypeInfo (fd_type d))) ds)"
    by (auto simp: Let_def spec_align_eq)
  then show ?case
  proof cases
    case 1
    then show ?thesis by (simp add: align_ge)
  next
    case 2
    from Cons.IH[OF 2] have "?o \<le> fl_offset f" by simp
    with align_ge[of r] show ?thesis using le_trans by blast
  qed
qed

lemma spec_offsets_length: "length (spec_offsets r ds) = length ds"
  by (induction ds arbitrary: r) (simp_all add: Let_def)

lemma spec_offsets_adjacent:
  "Suc i < length (spec_offsets r ds) \<Longrightarrow>
   fl_offset (spec_offsets r ds ! i) + fl_size (spec_offsets r ds ! i)
     \<le> fl_offset (spec_offsets r ds ! Suc i)"
proof (induction ds arbitrary: r i)
  case Nil
  then show ?case by simp
next
  case (Cons d ds)
  let ?o = "align r (ti_alignment (getTypeInfo (fd_type d)))"
  let ?s = "ti_size (getTypeInfo (fd_type d))"
  show ?case
  proof (cases i)
    case 0
    with Cons.prems have "spec_offsets (?o + ?s) ds ! 0 \<in> set (spec_offsets (?o + ?s) ds)"
      by (simp add: Let_def spec_align_eq)
    from spec_offsets_lower[OF this] show ?thesis
      using 0 by (simp add: Let_def spec_align_eq)
  next
    case (Suc j)
    with Cons.prems have "Suc j < length (spec_offsets (?o + ?s) ds)"
      by (simp add: Let_def spec_align_eq)
    from Cons.IH[OF this] show ?thesis
      using Suc by (simp add: Let_def spec_align_eq)
  qed
qed

lemma spec_max_alignment_pos: "0 < spec_max_alignment ds"
proof -
  have "1 \<le> spec_max_alignment ds"
    unfolding spec_max_alignment_def by (rule Max_ge) simp_all
  thus ?thesis by simp
qed

lemma defineStruct_alignment_pos: "0 < sl_alignment (defineStruct name ds)"
  by (simp add: defineStruct_eq_spec spec_computeLayout_def spec_max_alignment_pos)

text \<open>
  Claim C1.  For every field list, \<^verbatim>\<open>defineStruct\<close> computes the layout that the walk of the
  specification describes: fields in declaration order, a running offset from 0 and a
  running maximal alignment from 1, each offset rounded up to the field's alignment before
  it is recorded, the final offset rounded up to the maximal alignment.  For the struct
  \<^verbatim>\<open>{u32 a, u64 b, u32 c}\<close> the offsets are 0, 8 and 16, the size is 24 and the alignment 8.
\<close>

theorem defineStruct_walks_fields:
  "defineStruct name ds = spec_computeLayout name ds \<and>
   defineStruct ''S''
     [\<lparr>fd_name = ''a'', fd_type = Prim U32\<rparr>,
      \<lparr>fd_name = ''b'', fd_type = Prim U64\<rparr>,
      \<lparr>fd_name = ''c'', fd_type = Prim U32\<rparr>]
   = StructLayout ''S''
       [FieldLayout ''a'' (Prim U32) 0 4 4,
        FieldLayout ''b'' (Prim U64) 8 8 8,
        FieldLayout ''c'' (Prim U32) 16 4 4] 24 8"
proof
  show "defineStruct name ds = spec_computeLayout name ds"
    by (rule defineStruct_eq_spec)
next
  show "defineStruct ''S''
     [\<lparr>fd_name = ''a'', fd_type = Prim U32\<rparr>,
      \<lparr>fd_name = ''b'', fd_type = Prim U64\<rparr>,
      \<lparr>fd_name = ''c'', fd_type = Prim U32\<rparr>]
   = StructLayout ''S''
       [FieldLayout ''a'' (Prim U32) 0 4 4,
        FieldLayout ''b'' (Prim U64) 8 8 8,
        FieldLayout ''c'' (Prim U32) 16 4 4] 24 8"
    by (simp add: defineStruct_def align_def Let_def)
qed

text \<open>
  Claim C2.  In the layout that \<^verbatim>\<open>defineStruct\<close> returns every field's offset is a multiple of
  the field's alignment, the size is a multiple of the overall alignment, and adjacent
  fields do not overlap.  The alignment of a nested struct layout among the fields must be
  at least 1, as it is for every layout that \<^verbatim>\<open>defineStruct\<close> returns
  (\<open>defineStruct_alignment_pos\<close>); the alignments of primitives and arrays are.
\<close>

theorem defineStruct_layout_invariants:
  assumes "\<forall>d\<in>set ds. \<forall>L. fd_type d = Struct L \<longrightarrow> 0 < sl_alignment L"
  shows "(\<forall>f\<in>set (sl_fields (defineStruct name ds)). fl_offset f mod fl_alignment f = 0)
       \<and> sl_size (defineStruct name ds) mod sl_alignment (defineStruct name ds) = 0
       \<and> (\<forall>i. Suc i < length (sl_fields (defineStruct name ds)) \<longrightarrow>
             fl_offset (sl_fields (defineStruct name ds) ! i)
               + fl_size (sl_fields (defineStruct name ds) ! i)
             \<le> fl_offset (sl_fields (defineStruct name ds) ! Suc i))"
proof -
  from assms have pos: "\<forall>d\<in>set ds. 0 < ti_alignment (getTypeInfo (fd_type d))"
    by (auto intro: getTypeInfo_alignment_pos)
  have fields: "sl_fields (defineStruct name ds) = spec_offsets 0 ds"
    by (simp add: defineStruct_eq_spec spec_computeLayout_def)
  have "\<forall>f\<in>set (spec_offsets 0 ds). fl_offset f mod fl_alignment f = 0"
    using spec_offsets_aligned[OF pos] by blast
  moreover have "sl_size (defineStruct name ds) mod sl_alignment (defineStruct name ds) = 0"
    by (simp add: defineStruct_eq_spec spec_computeLayout_def spec_align_eq
        align_mod spec_max_alignment_pos)
  moreover have "\<forall>i. Suc i < length (spec_offsets 0 ds) \<longrightarrow>
      fl_offset (spec_offsets 0 ds ! i) + fl_size (spec_offsets 0 ds ! i)
        \<le> fl_offset (spec_offsets 0 ds ! Suc i)"
    using spec_offsets_adjacent by blast
  ultimately show ?thesis
    unfolding fields by blast
qed

theorem defineStruct_layout_invariants_witness:
  "sl_fields (defineStruct ''Outer''
      [\<lparr>fd_name = ''tag'', fd_type = Prim U8\<rparr>,
       \<lparr>fd_name = ''inner'', fd_type = Struct (StructLayout ''Inner''
          [FieldLayout ''x'' (Prim U16) 0 2 2, FieldLayout ''y'' (Prim U64) 8 8 8] 16 8)\<rparr>,
       \<lparr>fd_name = ''data'', fd_type = Array U16 3\<rparr>])
    = [FieldLayout ''tag'' (Prim U8) 0 1 1,
       FieldLayout ''inner'' (Struct (StructLayout ''Inner''
          [FieldLayout ''x'' (Prim U16) 0 2 2, FieldLayout ''y'' (Prim U64) 8 8 8] 16 8)) 8 16 8,
       FieldLayout ''data'' (Array U16 3) 24 6 2]
   \<and> sl_size (defineStruct ''Outer''
      [\<lparr>fd_name = ''tag'', fd_type = Prim U8\<rparr>,
       \<lparr>fd_name = ''inner'', fd_type = Struct (StructLayout ''Inner''
          [FieldLayout ''x'' (Prim U16) 0 2 2, FieldLayout ''y'' (Prim U64) 8 8 8] 16 8)\<rparr>,
       \<lparr>fd_name = ''data'', fd_type = Array U16 3\<rparr>]) mod
     sl_alignment (defineStruct ''Outer''
      [\<lparr>fd_name = ''tag'', fd_type = Prim U8\<rparr>,
       \<lparr>fd_name = ''inner'', fd_type = Struct (StructLayout ''Inner''
          [FieldLayout ''x'' (Prim U16) 0 2 2, FieldLayout ''y'' (Prim U64) 8 8 8] 16 8)\<rparr>,
       \<lparr>fd_name = ''data'', fd_type = Array U16 3\<rparr>]) = 0"
proof -
  let ?inner = "StructLayout ''Inner''
          [FieldLayout ''x'' (Prim U16) 0 2 2, FieldLayout ''y'' (Prim U64) 8 8 8] 16 8"
  let ?ds = "[\<lparr>fd_name = ''tag'', fd_type = Prim U8\<rparr>,
       \<lparr>fd_name = ''inner'', fd_type = Struct ?inner\<rparr>,
       \<lparr>fd_name = ''data'', fd_type = Array U16 3\<rparr>]"
  have hyp: "\<forall>d\<in>set ?ds. \<forall>L. fd_type d = Struct L \<longrightarrow> 0 < sl_alignment L"
    by simp
  have fields: "sl_fields (defineStruct ''Outer'' ?ds)
    = [FieldLayout ''tag'' (Prim U8) 0 1 1,
       FieldLayout ''inner'' (Struct ?inner) 8 16 8,
       FieldLayout ''data'' (Array U16 3) 24 6 2]"
    by (simp add: defineStruct_def align_def Let_def)
  from defineStruct_layout_invariants [OF hyp, of "''Outer''"]
  have "sl_size (defineStruct ''Outer'' ?ds) mod sl_alignment (defineStruct ''Outer'' ?ds) = 0"
    by blast
  with fields show ?thesis by blast
qed

text \<open>
  Claim C10.  \<^verbatim>\<open>getFieldOffset\<close> returns the offset of the first field with the given name
  when the layout has one, and throws an \<^verbatim>\<open>Error\<close> whose message names the field and the
  struct when it has none.
\<close>

theorem getFieldOffset_found_or_throws:
  "((\<exists>f\<in>set (sl_fields layout). fl_name f = fieldName) \<longrightarrow>
      (\<exists>i<length (sl_fields layout).
          fl_name (sl_fields layout ! i) = fieldName \<and>
          (\<forall>j<i. fl_name (sl_fields layout ! j) \<noteq> fieldName) \<and>
          getFieldOffset layout fieldName = Inr (fl_offset (sl_fields layout ! i))))
   \<and> ((\<forall>f\<in>set (sl_fields layout). fl_name f \<noteq> fieldName) \<longrightarrow>
      getFieldOffset layout fieldName =
        Inl (Error (''Field '' @ [CHR 0x27] @ fieldName @ [CHR 0x27] @
                    '' not found in struct '' @ [CHR 0x27] @ sl_name layout @ [CHR 0x27])))"
proof (intro conjI impI)
  assume "\<exists>f\<in>set (sl_fields layout). fl_name f = fieldName"
  then have "find (\<lambda>f. fl_name f = fieldName) (sl_fields layout) \<noteq> None"
    by (auto simp: find_None_iff)
  then obtain f where f: "find (\<lambda>f. fl_name f = fieldName) (sl_fields layout) = Some f"
    by blast
  then obtain i where i: "i < length (sl_fields layout)" "fl_name (sl_fields layout ! i) = fieldName"
      "f = sl_fields layout ! i" "\<forall>j<i. fl_name (sl_fields layout ! j) \<noteq> fieldName"
    unfolding find_Some_iff by blast
  from f i(3) have "getFieldOffset layout fieldName = Inr (fl_offset (sl_fields layout ! i))"
    by (simp add: getFieldOffset_def)
  with i show "\<exists>i<length (sl_fields layout).
          fl_name (sl_fields layout ! i) = fieldName \<and>
          (\<forall>j<i. fl_name (sl_fields layout ! j) \<noteq> fieldName) \<and>
          getFieldOffset layout fieldName = Inr (fl_offset (sl_fields layout ! i))"
    by blast
next
  assume "\<forall>f\<in>set (sl_fields layout). fl_name f \<noteq> fieldName"
  then have "find (\<lambda>f. fl_name f = fieldName) (sl_fields layout) = None"
    by (simp add: find_None_iff)
  then show "getFieldOffset layout fieldName =
        Inl (Error (''Field '' @ [CHR 0x27] @ fieldName @ [CHR 0x27] @
                    '' not found in struct '' @ [CHR 0x27] @ sl_name layout @ [CHR 0x27]))"
    by (simp add: getFieldOffset_def)
qed

theorem getFieldOffset_found_or_throws_witness:
  "getFieldOffset (StructLayout ''S''
       [FieldLayout ''a'' (Prim U32) 0 4 4,
        FieldLayout ''b'' (Prim U64) 8 8 8,
        FieldLayout ''c'' (Prim U32) 16 4 4] 24 8) ''b'' = Inr 8
   \<and> getFieldOffset (StructLayout ''S''
       [FieldLayout ''a'' (Prim U32) 0 4 4,
        FieldLayout ''b'' (Prim U64) 8 8 8,
        FieldLayout ''c'' (Prim U32) 16 4 4] 24 8) ''z''
     = Inl (Error (''Field 'z' not found in struct 'S'' @ [CHR 0x27]))"
proof -
  let ?L = "StructLayout ''S''
       [FieldLayout ''a'' (Prim U32) 0 4 4,
        FieldLayout ''b'' (Prim U64) 8 8 8,
        FieldLayout ''c'' (Prim U32) 16 4 4] 24 8"
  have "\<exists>f\<in>set (sl_fields ?L). fl_name f = ''b''" by simp
  with getFieldOffset_found_or_throws [of ?L "''b''"]
  obtain i where i: "i < length (sl_fields ?L)" "fl_name (sl_fields ?L ! i) = ''b''"
    "getFieldOffset ?L ''b'' = Inr (fl_offset (sl_fields ?L ! i))"
    by blast
  from i(1) have "i < 3" by simp
  then consider "i = 0" | "i = 1" | "i = 2" by linarith
  then have "fl_offset (sl_fields ?L ! i) = 8"
    using i(2) by cases simp_all
  with i(3) have found: "getFieldOffset ?L ''b'' = Inr 8" by simp
  have "\<forall>f\<in>set (sl_fields ?L). fl_name f \<noteq> ''z''" by simp
  with getFieldOffset_found_or_throws [of ?L "''z''"]
  have "getFieldOffset ?L ''z'' =
      Inl (Error (''Field '' @ [CHR 0x27] @ ''z'' @ [CHR 0x27] @
                    '' not found in struct '' @ [CHR 0x27] @ sl_name ?L @ [CHR 0x27]))"
    by blast
  then have missing: "getFieldOffset ?L ''z'' =
      Inl (Error (''Field 'z' not found in struct 'S'' @ [CHR 0x27]))"
    by simp
  from found missing show ?thesis by blast
qed

section \<open>Properties of polling, the encoder helpers and the callback registry\<close>

subsection \<open>Polling\<close>

lemma poll_loop_never_settles:
  "iterations \<le> maxIter \<Longrightarrow> poll_loop (\<lambda>i. Pending) maxIter iterations = maxIter"
proof (induction "maxIter - iterations" arbitrary: iterations)
  case 0
  then show ?case by (simp add: poll_loop.simps)
next
  case (Suc d)
  then have "iterations < maxIter" and "d = maxIter - Suc iterations" and "Suc iterations \<le> maxIter"
    by simp_all
  with Suc.hyps(1) [of "Suc iterations"] show ?case
    by (subst poll_loop.simps) simp
qed

lemma poll_loop_bound:
  "iterations \<le> maxIter \<Longrightarrow> poll_loop observed maxIter iterations \<le> maxIter"
proof (induction observed maxIter iterations rule: poll_loop.induct)
  case (1 observed maxIter iterations)
  show ?case
  proof (cases "observed iterations = Pending \<and> iterations < maxIter")
    case True
    then have "poll_loop observed maxIter (Suc iterations) \<le> maxIter"
      using "1.IH" by simp
    moreover have "poll_loop observed maxIter iterations = poll_loop observed maxIter (Suc iterations)"
      using True by (subst poll_loop.simps) simp
    ultimately show ?thesis by simp
  next
    case False
    then have "poll_loop observed maxIter iterations = iterations"
      by (subst poll_loop.simps) auto
    with "1.prems" show ?thesis by simp
  qed
qed

text \<open>
  Claim C7.  \<^verbatim>\<open>pollUntilComplete\<close> is a total function (its loop terminates by the measure
  \<open>maxIter - iterations\<close>).  For a promise that never settles the loop runs exactly the
  configured number of iterations, 10000 by default, and the call then throws the timeout
  error; for any promise the loop runs at most that many iterations.
\<close>

theorem pollUntilComplete_times_out:
  "pollUntilComplete (\<lambda>i. Pending) options =
     (Inl (Error (''Polling timed out after ''
                  @ decimal (case maxIterations options of None \<Rightarrow> 10000 | Some m \<Rightarrow> m)
                  @ '' iterations'')),
      (case maxIterations options of None \<Rightarrow> 10000 | Some m \<Rightarrow> m))
   \<and> snd (pollUntilComplete observed options)
       \<le> (case maxIterations options of None \<Rightarrow> 10000 | Some m \<Rightarrow> m)"
  by (simp add: pollUntilComplete_def Let_def poll_loop_never_settles poll_loop_bound)

subsection \<open>Empty input\<close>

text \<open>
  Claim C9.  On empty input \<^verbatim>\<open>encodeString\<close> returns data 0 and length 0, and \<^verbatim>\<open>ptrArray\<close> and
  \<^verbatim>\<open>u32Array\<close> return the pointer 0; the encoder is returned as it was, so no allocation is
  recorded.
\<close>

theorem empty_input_returns_null_pointer:
  "encodeString P this [] = (\<lparr>sv_data = 0, sv_length = 0\<rparr>, this)
   \<and> ptrArray P this [] = (0, this)
   \<and> u32Array P this [] = (0, this)"
  by (simp add: encodeString_def ptrArray_def u32Array_def)

subsection \<open>The trampoline and \<^verbatim>\<open>cleanup\<close>, step by step\<close>

lemma createAdapterCallback_registry:
  "fst (snd (createAdapterCallback P this encoder)) =
     this\<lparr>nextId := nextId this + 1,
          promises := promises this @ [Pending],
          pending := AList.update (nextId this)
             \<lparr>pc_promise = length (promises this), pc_jsCallback = nextId this\<rparr> (pending this)\<rparr>"
  by (simp add: createAdapterCallback_def Let_def split: sum.splits prod.splits)

lemma map_of_delete_None: "map_of (AList.delete k xs) k = None"
  by (simp add: AList.delete_conv')

lemma adapterCallback_absent:
  "map_of (pending this) t = None \<Longrightarrow>
   adapterCallback P this status adapter messageData messageLength t userdata2 = (None, this)"
  by (simp add: adapterCallback_def Let_def)

lemma call_settle_timers: "timers (call_settle t entry x this) = timers this"
  by (simp add: call_settle_def)

text \<open>
  For a token in the map the function either calls the resolver or rejecter of the entry
  once and returns, or throws before it has called either; the token is deleted both ways.
\<close>

lemma adapterCallback_present:
  assumes "map_of (pending this) t = Some entry"
  shows "(\<exists>x. adapterCallback P this status adapter messageData messageLength t userdata2
              = (None, (call_settle t entry x (this\<lparr>pending := AList.delete t (pending this)\<rparr>))
                         \<lparr>timers := timers this @ [pc_jsCallback entry]\<rparr>))
         \<or> (\<exists>e. adapterCallback P this status adapter messageData messageLength t userdata2
              = (Some e, this\<lparr>pending := AList.delete t (pending this)\<rparr>))"
proof (cases "status = WGPURequestAdapterStatus_Success")
  case True
  with assms show ?thesis
    by (auto simp add: adapterCallback_def Let_def call_settle_timers)
next
  case False
  show ?thesis
  proof (cases "if messageLength > 0 then readString P messageData (AsBigInt messageLength)
                else Inr ''Unknown error''")
    case (Inl e)
    with assms False show ?thesis
      by (simp add: adapterCallback_def Let_def)
  next
    case (Inr message)
    with assms False show ?thesis
      by (auto simp add: adapterCallback_def Let_def call_settle_timers)
  qed
qed

lemma adapterCallback_removes:
  "map_of (pending (snd (adapterCallback P this status adapter messageData messageLength t userdata2))) t
     = None"
proof (cases "map_of (pending this) t")
  case None
  then show ?thesis by (simp add: adapterCallback_absent)
next
  case (Some entry)
  from adapterCallback_present[OF Some, of P status adapter messageData messageLength userdata2]
  show ?thesis by (auto simp: call_settle_def map_of_delete_None)
qed

lemma adapterCallback_log:
  assumes "map_of (pending this) t = Some entry"
  shows "settle_log (snd (adapterCallback P this status adapter messageData messageLength t userdata2))
           = settle_log this
         \<or> (\<exists>x. settle_log (snd (adapterCallback P this status adapter messageData messageLength t
                                  userdata2))
                 = settle_log this @ [(t, x)])"
  using adapterCallback_present[OF assms, of P status adapter messageData messageLength userdata2]
  by (auto simp: call_settle_def)

lemma adapterCallback_other:
  "u \<noteq> t \<Longrightarrow>
   calls_for t (snd (adapterCallback P this status adapter messageData messageLength u userdata2))
     = calls_for t this
   \<and> (map_of (pending this) t = None \<longrightarrow>
        map_of (pending (snd (adapterCallback P this status adapter messageData messageLength u
                                userdata2))) t = None)"
proof (cases "map_of (pending this) u")
  case None
  then show ?thesis by (simp add: adapterCallback_absent)
next
  case (Some entry)
  assume "u \<noteq> t"
  with adapterCallback_present[OF Some, of P status adapter messageData messageLength userdata2]
  show ?thesis by (auto simp: call_settle_def calls_for_def AList.delete_conv')
qed

lemma fire_all_absent:
  "map_of (pending this) t = None \<Longrightarrow> calls_for t (fire_all P this calls) = calls_for t this"
proof (induction calls arbitrary: this)
  case Nil
  then show ?case by (simp add: fire_all_def)
next
  case (Cons c calls)
  show ?case
  proof (cases "arg_userdata1 c = t")
    case True
    with Cons.prems have "fire P this c = this"
      by (simp add: fire_def adapterCallback_absent)
    with Cons show ?thesis by (simp add: fire_all_def)
  next
    case False
    from adapterCallback_other[OF False] Cons.prems
    have "calls_for t (fire P this c) = calls_for t this"
      and "map_of (pending (fire P this c)) t = None"
      by (simp_all add: fire_def)
    with Cons.IH[of "fire P this c"] show ?thesis by (simp add: fire_all_def)
  qed
qed

lemma fire_all_at_most_once:
  "calls_for t (fire_all P this calls) \<le> calls_for t this + 1"
proof (induction calls arbitrary: this)
  case Nil
  then show ?case by (simp add: fire_all_def)
next
  case (Cons c calls)
  show ?case
  proof (cases "arg_userdata1 c = t")
    case True
    show ?thesis
    proof (cases "map_of (pending this) t")
      case None
      with True have "fire P this c = this"
        by (simp add: fire_def adapterCallback_absent)
      with Cons.IH[of this] show ?thesis by (simp add: fire_all_def)
    next
      case (Some entry)
      from adapterCallback_log[OF Some]
      have "settle_log (fire P this c) = settle_log this
            \<or> (\<exists>x. settle_log (fire P this c) = settle_log this @ [(t, x)])"
        unfolding fire_def True[symmetric] by blast
      then have "calls_for t (fire P this c) \<le> calls_for t this + 1"
        by (auto simp: calls_for_def)
      moreover from True have "map_of (pending (fire P this c)) t = None"
        by (simp add: fire_def adapterCallback_removes)
      ultimately show ?thesis
        using fire_all_absent[of "fire P this c" t P calls] by (simp add: fire_all_def)
    qed
  next
    case False
    from adapterCallback_other[OF False]
    have "calls_for t (fire P this c) = calls_for t this"
      by (simp add: fire_def)
    with Cons.IH[of "fire P this c"] show ?thesis by (simp add: fire_all_def)
  qed
qed

lemma fire_all_empty:
  "pending this = [] \<Longrightarrow> fire_all P this calls = this"
  by (induction calls) (simp_all add: fire_all_def fire_def adapterCallback_absent)

lemma cleanup_fold_log:
  "settle_log (foldl cleanup_step s es)
     = settle_log s @ map (\<lambda>(token, entry). (token, Reject (Error ''Callback registry cleaned up''))) es"
  by (induction es arbitrary: s) (auto simp: cleanup_step_def call_settle_def)

lemma cleanup_fold_settled:
  "p < length (promises s) \<Longrightarrow> promises s ! p = Rejected e \<Longrightarrow>
   promises (foldl cleanup_step s es) ! p = Rejected e"
proof (induction es arbitrary: s)
  case Nil
  then show ?case by simp
next
  case (Cons a es)
  obtain token entry where a: "a = (token, entry)" by (cases a)
  have "p < length (promises (cleanup_step s a))" "promises (cleanup_step s a) ! p = Rejected e"
    using Cons.prems by (auto simp: a cleanup_step_def call_settle_def nth_list_update)
  from Cons.IH[OF this] show ?case by simp
qed

lemma cleanup_fold_rejects:
  "(token, entry) \<in> set es \<Longrightarrow> pc_promise entry < length (promises s) \<Longrightarrow>
   promises s ! pc_promise entry = Pending \<Longrightarrow>
   promises (foldl cleanup_step s es) ! pc_promise entry
     = Rejected (Error ''Callback registry cleaned up'')"
proof (induction es arbitrary: s)
  case Nil
  then show ?case by simp
next
  case (Cons a es)
  obtain token1 entry1 where a: "a = (token1, entry1)" by (cases a)
  let ?s1 = "cleanup_step s a"
  have len: "pc_promise entry < length (promises ?s1)"
    using Cons.prems(2) by (auto simp: a cleanup_step_def call_settle_def)
  show ?case
  proof (cases "pc_promise entry1 = pc_promise entry")
    case True
    then have "promises ?s1 ! pc_promise entry = Rejected (Error ''Callback registry cleaned up'')"
      using Cons.prems(2,3) by (auto simp: a cleanup_step_def call_settle_def)
    from cleanup_fold_settled[OF len this] show ?thesis by simp
  next
    case False
    then have pend: "promises ?s1 ! pc_promise entry = Pending"
      using Cons.prems(2,3) by (auto simp: a cleanup_step_def call_settle_def)
    from False Cons.prems(1) have "(token, entry) \<in> set es" by (auto simp: a)
    from Cons.IH[OF this len pend] show ?thesis by simp
  qed
qed

subsection \<open>The life of a registry\<close>

lemma update_fresh: "k \<notin> fst ` set al \<Longrightarrow> AList.update k v al = al @ [(k, v)]"
  by (induction al) auto

lemma registry_inv_new: "registry_inv new_CallbackRegistry"
  by (simp add: registry_inv_def new_CallbackRegistry_def)

lemma registry_inv_create:
  assumes "registry_inv this"
  shows "registry_inv (fst (snd (createAdapterCallback P this encoder)))"
proof -
  let ?id = "nextId this"
  let ?p = "length (promises this)"
  from assms have fresh: "?id \<notin> fst ` set (pending this)"
    by (auto simp: registry_inv_def)
  have pend: "pending (fst (snd (createAdapterCallback P this encoder)))
      = pending this @ [(?id, \<lparr>pc_promise = ?p, pc_jsCallback = ?id\<rparr>)]"
    by (simp add: createAdapterCallback_registry update_fresh[OF fresh])
  from assms have new_promise: "?p \<notin> (\<lambda>p. pc_promise (snd p)) ` set (pending this)"
    by (auto simp: registry_inv_def)
  from assms show ?thesis
    unfolding registry_inv_def pend
    using fresh new_promise
    by (auto simp: createAdapterCallback_registry nth_append less_Suc_eq)
qed


lemma delete_set: "set (AList.delete k al) = {p \<in> set al. fst p \<noteq> k}"
  by (induction al) auto

lemma registry_inv_fire:
  assumes "registry_inv this"
  shows "registry_inv (snd (adapterCallback P this status adapter messageData messageLength u userdata2))"
proof (cases "map_of (pending this) u")
  case None
  with assms show ?thesis by (simp add: adapterCallback_absent)
next
  case (Some entry)
  from assms have dk: "distinct (map fst (pending this))"
    and dp: "distinct (map (\<lambda>p. pc_promise (snd p)) (pending this))"
    and pe: "\<And>p. p \<in> set (pending this) \<Longrightarrow> fst p < nextId this \<and> pc_promise (snd p) < length (promises this)
            \<and> promises this ! pc_promise (snd p) = Pending"
    and dl: "distinct (map fst (settle_log this))"
    and lg: "\<And>c. c \<in> set (settle_log this) \<Longrightarrow> fst c < nextId this \<and> fst c \<notin> fst ` set (pending this)"
    by (auto simp: registry_inv_def)
  from Some have mem: "(u, entry) \<in> set (pending this)" by (rule map_of_SomeD)
  let ?this' = "snd (adapterCallback P this status adapter messageData messageLength u userdata2)"
  have pend: "pending ?this' = AList.delete u (pending this)"
    and nid: "nextId ?this' = nextId this"
    using adapterCallback_present[OF Some, of P status adapter messageData messageLength userdata2]
    by (auto simp: call_settle_def)
  have changes:
    "(settle_log ?this' = settle_log this \<and> promises ?this' = promises this)
     \<or> (\<exists>x. settle_log ?this' = settle_log this @ [(u, x)]
            \<and> promises ?this'
                = (promises this)[pc_promise entry := settle (promises this ! pc_promise entry) x])"
    using adapterCallback_present[OF Some, of P status adapter messageData messageLength userdata2]
      pe[OF mem]
    by (auto simp: call_settle_def)
  have other: "pc_promise (snd p) \<noteq> pc_promise entry" if "p \<in> set (AList.delete u (pending this))" for p
  proof -
    from that have p: "p \<in> set (pending this)" "fst p \<noteq> u" by (simp_all add: delete_set)
    with mem have "p \<noteq> (u, entry)" by auto
    with dp p(1) mem show ?thesis
      by (metis distinct_map inj_on_def snd_conv)
  qed
  have u_new: "u \<notin> fst ` set (settle_log this)"
    using lg mem by force
  have 1: "distinct (map fst (pending ?this'))"
    unfolding pend using dk by (rule distinct_delete)
  have 2: "distinct (map (\<lambda>p. pc_promise (snd p)) (pending ?this'))"
    unfolding pend using dp by (simp add: AList.delete_eq distinct_map_filter)
  have 3: "distinct (map fst (settle_log ?this'))"
    using changes dl u_new by auto
  have 4: "fst p < nextId ?this' \<and> pc_promise (snd p) < length (promises ?this')
          \<and> promises ?this' ! pc_promise (snd p) = Pending"
    if p: "p \<in> set (pending ?this')" for p
  proof -
    from p have p': "p \<in> set (AList.delete u (pending this))" by (simp add: pend)
    then have "p \<in> set (pending this)" by (simp add: delete_set)
    from pe[OF this] other[OF p'] changes show ?thesis by (auto simp: nid)
  qed
  have 5: "fst c < nextId ?this' \<and> fst c \<notin> fst ` set (pending ?this')"
    if "c \<in> set (settle_log ?this')" for c
  proof -
    from that changes consider "c \<in> set (settle_log this)" | "fst c = u" by auto
    then show ?thesis
    proof cases
      case 1
      from lg[OF 1] show ?thesis by (auto simp: delete_set nid pend)
    next
      case 2
      with pe[OF mem] show ?thesis by (auto simp: delete_set nid pend)
    qed
  qed
  from 1 2 3 4 5 show ?thesis
    unfolding registry_inv_def by blast
qed

lemma cleanup_fold_nextId: "nextId (foldl cleanup_step s es) = nextId s"
  by (induction es arbitrary: s) (auto simp: cleanup_step_def call_settle_def)

lemma registry_inv_cleanup:
  assumes "registry_inv this"
  shows "registry_inv (cleanup this)"
proof -
  from assms have dk: "distinct (map fst (pending this))"
    and pe: "\<And>p. p \<in> set (pending this) \<Longrightarrow> fst p < nextId this"
    and dl: "distinct (map fst (settle_log this))"
    and lg: "\<And>c. c \<in> set (settle_log this) \<Longrightarrow> fst c < nextId this \<and> fst c \<notin> fst ` set (pending this)"
    by (auto simp: registry_inv_def)
  let ?new = "map (\<lambda>(token, entry). (token, Reject (Error ''Callback registry cleaned up''))) (pending this)"
  have keys: "map fst ?new = map fst (pending this)"
    by (simp add: case_prod_unfold comp_def)
  have log: "settle_log (cleanup this) = settle_log this @ ?new"
    by (simp add: cleanup_def cleanup_fold_log)
  have disjoint: "set (map fst (settle_log this)) \<inter> set (map fst (pending this)) = {}"
    using lg by force
  have "map fst (settle_log (cleanup this)) = map fst (settle_log this) @ map fst (pending this)"
    unfolding log map_append keys ..
  then have 1: "distinct (map fst (settle_log (cleanup this)))"
    using dk dl disjoint by simp
  have 2: "fst c < nextId (cleanup this)" if "c \<in> set (settle_log (cleanup this))" for c
  proof (cases "c \<in> set (settle_log this)")
    case True
    with lg show ?thesis by (simp add: cleanup_def cleanup_fold_nextId)
  next
    case False
    with that have "c \<in> set ?new" unfolding log by simp
    then have "fst c \<in> fst ` set ?new" by (rule imageI)
    then have "fst c \<in> set (map fst ?new)" by (simp only: set_map)
    then have "fst c \<in> set (map fst (pending this))" by (simp only: keys)
    then obtain p where "p \<in> set (pending this)" and "fst c = fst p"
      by (auto simp only: set_map)
    with pe[of p] show ?thesis by (simp add: cleanup_def cleanup_fold_nextId)
  qed
  have 3: "pending (cleanup this) = []" by (simp add: cleanup_def)
  from 1 2 3 show ?thesis by (simp add: registry_inv_def)
qed

lemma registry_inv_step: "registry_inv this \<Longrightarrow> registry_inv (step P this ev)"
  by (cases ev) (simp_all add: registry_inv_create registry_inv_fire registry_inv_cleanup fire_def)

lemma registry_inv_run: "registry_inv (run P events)"
proof -
  have "registry_inv this \<Longrightarrow> registry_inv (foldl (step P) this events)" for this
    by (induction events arbitrary: this) (simp_all add: registry_inv_step)
  from this[OF registry_inv_new] show ?thesis by (simp add: run_def)
qed

lemma distinct_count_le_1:
  "distinct (map f xs) \<Longrightarrow> length (filter (\<lambda>x. f x = a) xs) \<le> Suc 0"
  by (induction xs) (auto simp: filter_empty_conv image_iff)

lemma run_calls_at_most_once: "calls_for t (run P events) \<le> 1"
  using registry_inv_run[of P events]
  by (simp add: registry_inv_def calls_for_def distinct_count_le_1)

lemma run_cleanup_rejects:
  assumes "p \<in> set (pending (run P events))"
  shows "promises (cleanup (run P events)) ! pc_promise (snd p)
           = Rejected (Error ''Callback registry cleaned up'')"
proof -
  from registry_inv_run[of P events] assms
  have "pc_promise (snd p) < length (promises (run P events))"
    and "promises (run P events) ! pc_promise (snd p) = Pending"
    by (auto simp: registry_inv_def)
  with cleanup_fold_rejects[of "fst p" "snd p" "pending (run P events)" "run P events"] assms
  show ?thesis by (simp add: cleanup_def)
qed

subsection \<open>Shutdown\<close>

text \<open>
  Claim C8.  \<^verbatim>\<open>cleanup\<close> leaves the pending map empty, calls the rejecter of every entry once
  with the error \<^verbatim>\<open>Callback registry cleaned up\<close>, in the order of the map, and every
  promise of an entry that was still pending is rejected with that error.  In a registry
  at any point of its life the promise of every entry of the map is still pending, so
  \<^verbatim>\<open>cleanup\<close> rejects them all.
\<close>

theorem cleanup_rejects_all_pending:
  "pending (cleanup this) = []
   \<and> pendingCount (cleanup this) = 0
   \<and> settle_log (cleanup this)
       = settle_log this
         @ map (\<lambda>(token, entry). (token, Reject (Error ''Callback registry cleaned up''))) (pending this)
   \<and> (\<forall>(token, entry)\<in>set (pending this).
         pc_promise entry < length (promises this) \<and> promises this ! pc_promise entry = Pending \<longrightarrow>
         promises (cleanup this) ! pc_promise entry = Rejected (Error ''Callback registry cleaned up''))
   \<and> (\<forall>(token, entry)\<in>set (pending (run P events)).
         promises (cleanup (run P events)) ! pc_promise entry
           = Rejected (Error ''Callback registry cleaned up''))"
proof -
  have "\<forall>(token, entry)\<in>set (pending this).
         pc_promise entry < length (promises this) \<and> promises this ! pc_promise entry = Pending \<longrightarrow>
         promises (cleanup this) ! pc_promise entry = Rejected (Error ''Callback registry cleaned up'')"
    using cleanup_fold_rejects[of _ _ "pending this" this] by (auto simp: cleanup_def)
  moreover have "\<forall>(token, entry)\<in>set (pending (run P events)).
         promises (cleanup (run P events)) ! pc_promise entry
           = Rejected (Error ''Callback registry cleaned up'')"
    using run_cleanup_rejects[of _ P events] by fastforce
  ultimately show ?thesis
    by (simp add: cleanup_def pendingCount_def cleanup_fold_log)
qed

subsection \<open>The registries of the scenarios\<close>

lemma one_pending_eq:
  "one_pending =
     \<lparr>pending = [(1, \<lparr>pc_promise = 0, pc_jsCallback = 1\<rparr>)], nextId = 2,
      promises = [Pending], settle_log = [], timers = [], closed = []\<rparr>"
  by (simp add: one_pending_def createAdapterCallback_registry new_CallbackRegistry_def)

lemma two_pending_eq:
  "two_pending =
     \<lparr>pending = [(1, \<lparr>pc_promise = 0, pc_jsCallback = 1\<rparr>), (2, \<lparr>pc_promise = 1, pc_jsCallback = 2\<rparr>)],
      nextId = 3, promises = [Pending, Pending], settle_log = [], timers = [], closed = []\<rparr>"
  by (simp add: two_pending_def createAdapterCallback_registry one_pending_eq)

lemma two_pending_run:
  "run boom_platform [Create \<lparr>allocations = []\<rparr>, Create \<lparr>allocations = []\<rparr>] = two_pending"
  by (simp add: run_def two_pending_def one_pending_def)

subsection \<open>A failure status with a message\<close>

lemma one_pending_present:
  "map_of (pending one_pending) 1 = Some \<lparr>pc_promise = 0, pc_jsCallback = 1\<rparr>"
  by (simp add: one_pending_eq)

lemma boom_throws:
  "adapterCallback boom_platform one_pending 4 0 4096 4 1 0
     = (Some TypeError, one_pending\<lparr>pending := []\<rparr>)"
  by (simp add: adapterCallback_def Let_def readString_def one_pending_eq
      WGPURequestAdapterStatus_Success_def)

text \<open>
  Claim C4.  The scenario of the claim: one adapter request is registered, and the native
  side fires its trampoline with status 4, the address 4096 and the length 4 of the bytes
  \<^verbatim>\<open>boom\<close>.  The function deletes the token and then throws the \<^verbatim>\<open>TypeError\<close> that
  \<^verbatim>\<open>toArrayBuffer\<close> raises for the bigint length, before it reaches \<^verbatim>\<open>pending.reject\<close>: no
  rejecter is called, no \<^verbatim>\<open>close\<close> is scheduled, and the promise is still pending.  It stays
  so, since the map no longer holds its entry: no later invocation of the trampoline and
  no \<^verbatim>\<open>cleanup\<close> settles it.  Given the length as a number, as \<^verbatim>\<open>parseCompilationInfo\<close>
  gives it, \<^verbatim>\<open>memory.readString\<close> returns the text \<^verbatim>\<open>boom\<close>.
\<close>

theorem adapter_failure_message_throws:
  "adapterCallback boom_platform one_pending 4 0 4096 4 1 0
     = (Some TypeError, one_pending\<lparr>pending := []\<rparr>)
   \<and> promises one_pending ! 0 = Pending
   \<and> promises (snd (adapterCallback boom_platform one_pending 4 0 4096 4 1 0)) ! 0 = Pending
   \<and> promises (snd (adapterCallback boom_platform one_pending 4 0 4096 4 1 0)) ! 0
       \<noteq> Rejected (Error ''boom'')
   \<and> settle_log (snd (adapterCallback boom_platform one_pending 4 0 4096 4 1 0)) = []
   \<and> timers (snd (adapterCallback boom_platform one_pending 4 0 4096 4 1 0)) = []
   \<and> promises (fire_all boom_platform
        (snd (adapterCallback boom_platform one_pending 4 0 4096 4 1 0)) calls) ! 0 = Pending
   \<and> promises (cleanup (fire_all boom_platform
        (snd (adapterCallback boom_platform one_pending 4 0 4096 4 1 0)) calls)) ! 0 = Pending
   \<and> readString boom_platform 4096 (AsBigInt 4) = Inl TypeError
   \<and> readString boom_platform 4096 (AsNumber 4) = Inr ''boom''"
proof -
  let ?after = "snd (adapterCallback boom_platform one_pending 4 0 4096 4 1 0)"
  have after: "?after = one_pending\<lparr>pending := []\<rparr>"
    unfolding boom_throws by simp
  then have "pending ?after = []" by simp
  then have later: "fire_all boom_platform ?after calls = ?after"
    by (rule fire_all_empty)
  have "promises (cleanup ?after) ! 0 = Pending"
    unfolding after by (simp add: cleanup_def one_pending_eq)
  moreover have "readString boom_platform 4096 (AsBigInt 4) = Inl TypeError"
    by (simp add: readString_def)
  moreover have "readString boom_platform 4096 (AsNumber 4) = Inr ''boom''"
    by code_simp
  ultimately show ?thesis
    using later unfolding boom_throws by (simp add: one_pending_eq)
qed

subsection \<open>Single resolution\<close>

text \<open>
  Claim C6.  In the same scenario the token is in the pending map before the invocation and
  is not in it afterwards, yet neither the resolver nor the rejecter stored under it has
  been called: the removal is not accompanied by resolving or rejecting.  What does hold
  for every registry and every invocation: an invocation calls at most one resolver or
  rejecter, that of its token, at most once; it leaves its token out of the map,
  so a later invocation with the same token, whatever its other arguments, returns at once
  and changes nothing; over any run of invocations the pair stored under a token is called
  at most once more; and over the whole life of a registry, with registrations,
  invocations and cleanups in any order, it is called at most once.
\<close>

theorem trampoline_removes_without_settling:
  "map_of (pending one_pending) 1 = Some \<lparr>pc_promise = 0, pc_jsCallback = 1\<rparr>
   \<and> map_of (pending (snd (adapterCallback boom_platform one_pending 4 0 4096 4 1 0))) 1 = None
   \<and> calls_for 1 (snd (adapterCallback boom_platform one_pending 4 0 4096 4 1 0)) = 0
   \<and> fst (adapterCallback boom_platform one_pending 4 0 4096 4 1 0) = Some TypeError
   \<and> (settle_log (snd (adapterCallback P this status adapter messageData messageLength t userdata2))
         = settle_log this
       \<or> (\<exists>x. settle_log (snd (adapterCallback P this status adapter messageData messageLength t
                                userdata2))
               = settle_log this @ [(t, x)]))
   \<and> map_of (pending (snd (adapterCallback P this status adapter messageData messageLength t
                             userdata2))) t = None
   \<and> adapterCallback P
        (snd (adapterCallback P this status adapter messageData messageLength t userdata2))
        status2 adapter2 messageData2 messageLength2 t userdata22
       = (None, snd (adapterCallback P this status adapter messageData messageLength t userdata2))
   \<and> calls_for t (fire_all P this calls) \<le> calls_for t this + 1
   \<and> calls_for t (run P events) \<le> 1"
proof (intro conjI)
  show "map_of (pending one_pending) 1 = Some \<lparr>pc_promise = 0, pc_jsCallback = 1\<rparr>"
    by (rule one_pending_present)
  show "map_of (pending (snd (adapterCallback boom_platform one_pending 4 0 4096 4 1 0))) 1 = None"
    unfolding boom_throws by simp
  show "calls_for 1 (snd (adapterCallback boom_platform one_pending 4 0 4096 4 1 0)) = 0"
    unfolding boom_throws by (simp add: calls_for_def one_pending_eq)
  show "fst (adapterCallback boom_platform one_pending 4 0 4096 4 1 0) = Some TypeError"
    unfolding boom_throws by simp
  show "settle_log (snd (adapterCallback P this status adapter messageData messageLength t userdata2))
         = settle_log this
       \<or> (\<exists>x. settle_log (snd (adapterCallback P this status adapter messageData messageLength t
                                userdata2))
               = settle_log this @ [(t, x)])"
  proof (cases "map_of (pending this) t")
    case None
    then show ?thesis by (simp add: adapterCallback_absent)
  next
    case (Some entry)
    then show ?thesis by (rule adapterCallback_log)
  qed
  show "map_of (pending (snd (adapterCallback P this status adapter messageData messageLength t
                             userdata2))) t = None"
    by (rule adapterCallback_removes)
  show "adapterCallback P
        (snd (adapterCallback P this status adapter messageData messageLength t userdata2))
        status2 adapter2 messageData2 messageLength2 t userdata22
       = (None, snd (adapterCallback P this status adapter messageData messageLength t userdata2))"
    by (rule adapterCallback_absent) (rule adapterCallback_removes)
  show "calls_for t (fire_all P this calls) \<le> calls_for t this + 1"
    by (rule fire_all_at_most_once)
  show "calls_for t (run P events) \<le> 1"
    by (rule run_calls_at_most_once)
qed

subsection \<open>The scenario of two pending operations\<close>

theorem cleanup_rejects_all_pending_witness:
  "pendingCount two_pending = 2
   \<and> pendingCount (cleanup two_pending) = 0
   \<and> promises (cleanup two_pending) ! 0 = Rejected (Error ''Callback registry cleaned up'')
   \<and> promises (cleanup two_pending) ! 1 = Rejected (Error ''Callback registry cleaned up'')
   \<and> settle_log (cleanup two_pending)
       = [(1, Reject (Error ''Callback registry cleaned up'')),
          (2, Reject (Error ''Callback registry cleaned up''))]
   \<and> promises (cleanup (run boom_platform
          [Create \<lparr>allocations = []\<rparr>, Create \<lparr>allocations = []\<rparr>])) ! 1
       = Rejected (Error ''Callback registry cleaned up'')"
proof -
  note c = cleanup_rejects_all_pending [of two_pending boom_platform
      "[Create \<lparr>allocations = []\<rparr>, Create \<lparr>allocations = []\<rparr>]"]
  have p: "pending two_pending
      = [(1, \<lparr>pc_promise = 0, pc_jsCallback = 1\<rparr>), (2, \<lparr>pc_promise = 1, pc_jsCallback = 2\<rparr>)]"
    and q: "promises two_pending = [Pending, Pending]" and l: "settle_log two_pending = []"
    by (simp_all add: two_pending_eq)
  from c have "\<forall>(token, entry)\<in>set (pending two_pending).
         pc_promise entry < length (promises two_pending)
           \<and> promises two_pending ! pc_promise entry = Pending \<longrightarrow>
         promises (cleanup two_pending) ! pc_promise entry
           = Rejected (Error ''Callback registry cleaned up'')"
    by blast
  then have r: "promises (cleanup two_pending) ! 0 = Rejected (Error ''Callback registry cleaned up'')"
     "promises (cleanup two_pending) ! 1 = Rejected (Error ''Callback registry cleaned up'')"
    by (simp_all add: p q)
  from c have "\<forall>(token, entry)\<in>set (pending (run boom_platform
          [Create \<lparr>allocations = []\<rparr>, Create \<lparr>allocations = []\<rparr>])).
         promises (cleanup (run boom_platform
          [Create \<lparr>allocations = []\<rparr>, Create \<lparr>allocations = []\<rparr>])) ! pc_promise entry
           = Rejected (Error ''Callback registry cleaned up'')"
    by blast
  then have life: "promises (cleanup (run boom_platform
          [Create \<lparr>allocations = []\<rparr>, Create \<lparr>allocations = []\<rparr>])) ! 1
       = Rejected (Error ''Callback registry cleaned up'')"
    by (simp add: two_pending_run p)
  from c have "pendingCount (cleanup two_pending) = 0"
    and "settle_log (cleanup two_pending)
       = [(1, Reject (Error ''Callback registry cleaned up'')),
          (2, Reject (Error ''Callback registry cleaned up''))]"
    by (simp_all add: p l)
  with r life show ?thesis by (simp add: pendingCount_def p)
qed

section \<open>Properties of the struct encoder and decoder\<close>

subsection \<open>Bytes\<close>

lemma length_le_bytes [simp]: "length (le_bytes n x) = n"
  by (induction n arbitrary: x) simp_all

lemma uint_byte_of_int: "uint (word_of_int y :: byte) = y mod 256"
  by (simp add: uint_word_of_int)

lemma le_val_le_bytes: "le_val (le_bytes n x) = x mod 2 ^ (8 * n)"
proof (induction n arbitrary: x)
  case 0
  show ?case by simp
next
  case (Suc n)
  have "le_val (le_bytes (Suc n) x) = x mod 256 + 256 * (x div 256 mod 2 ^ (8 * n))"
    by (simp add: Suc uint_byte_of_int)
  also have "\<dots> = x mod (256 * 2 ^ (8 * n))"
    by (simp add: zmod_zmult2_eq)
  also have "(256 :: int) * 2 ^ (8 * n) = 2 ^ (8 * Suc n)"
    by (simp add: power_add)
  finally show ?case .
qed

lemma to_signed_mod:
  assumes "0 < bits" and "- (2 ^ (bits - 1)) \<le> x" and "x < 2 ^ (bits - 1)"
  shows "to_signed bits (x mod 2 ^ bits) = x"
proof -
  from assms(1) have p: "(2::int) ^ bits = 2 * 2 ^ (bits - 1)"
    by (cases bits) simp_all
  show ?thesis
  proof (cases "0 \<le> x")
    case True
    with assms(3) p have "x mod 2 ^ bits = x" by simp
    with assms(3) show ?thesis by (simp add: to_signed_def)
  next
    case False
    have "x mod 2 ^ bits = (x + 2 ^ bits) mod 2 ^ bits" by simp
    also have "\<dots> = x + 2 ^ bits"
      using assms(2) False p by (intro mod_pos_pos_trivial) simp_all
    finally have "x mod 2 ^ bits = x + 2 ^ bits" .
    with assms(2) False p show ?thesis by (simp add: to_signed_def)
  qed
qed

subsection \<open>Numbers\<close>

lemma bit_length_le: "n < 2 ^ k \<Longrightarrow> bit_length n \<le> k"
proof (induction k arbitrary: n)
  case 0
  then show ?case by (simp add: bit_length.simps)
next
  case (Suc k)
  show ?case
  proof (cases "n = 0")
    case True
    then show ?thesis by (simp add: bit_length.simps)
  next
    case False
    from Suc.prems have "n div 2 < 2 ^ k" by simp
    from Suc.IH[OF this] False show ?thesis
      by (subst bit_length.simps) simp
  qed
qed

lemma Number_of_bigint_exact:
  assumes "\<bar>n\<bar> < 2 ^ 53"
  shows "Number_of_bigint n = of_int n"
proof -
  from assms have "nat \<bar>n\<bar> < 2 ^ 53" by (simp add: nat_less_iff)
  from bit_length_le[OF this] have "bit_length (nat \<bar>n\<bar>) - 53 = 0" by simp
  moreover have "sgn n * int (nat \<bar>n\<bar>) = n" by (simp add: mult_sgn_abs)
  ultimately show ?thesis
    by (simp only: Number_of_bigint_def Let_def) simp
qed

lemma is_integer_of_int [simp]: "is_integer (of_int n)"
  by (simp add: is_integer_def)

lemma ToIntegral_of_int [simp]: "ToIntegral (Finite (of_int n)) = n"
  by simp

lemma representable_number:
  "(case v of Num x \<Rightarrow> integer_between lo x hi | _ \<Rightarrow> False) \<Longrightarrow>
   \<exists>n. v = Num (of_int n) \<and> lo \<le> n \<and> n < hi"
proof (cases v)
  case (Num x)
  assume "case v of Num x \<Rightarrow> integer_between lo x hi | _ \<Rightarrow> False"
  with Num have i: "of_int \<lfloor>x\<rfloor> = x" and l: "of_int lo \<le> x" and h: "x < of_int hi"
    by (simp_all add: integer_between_def is_integer_def)
  from l have "lo \<le> \<lfloor>x\<rfloor>" by (simp add: le_floor_iff)
  moreover from h have "\<lfloor>x\<rfloor> < hi" by (simp add: floor_less_iff)
  ultimately show ?thesis using Num i by metis
qed simp_all

subsection \<open>Views\<close>

lemma unchanged_outside_refl: "unchanged_outside view view lo hi"
  by (simp add: unchanged_outside_def)

lemma unchanged_outside_trans:
  "unchanged_outside a b lo hi \<Longrightarrow> unchanged_outside b c lo hi \<Longrightarrow> unchanged_outside a c lo hi"
  by (simp add: unchanged_outside_def)

lemma unchanged_outside_mono:
  "unchanged_outside a b lo hi \<Longrightarrow> lo' \<le> lo \<Longrightarrow> hi \<le> hi' \<Longrightarrow> unchanged_outside a b lo' hi'"
  by (auto simp: unchanged_outside_def)

lemma unchanged_outside_length: "unchanged_outside a b lo hi \<Longrightarrow> length b = length a"
  by (simp add: unchanged_outside_def)

lemma SetViewValue_unchanged_outside:
  assumes "SetViewValue view off True bs = Inr view1"
  shows "unchanged_outside view view1 off (off + length bs)"
proof -
  from assms have le: "off + length bs \<le> length view"
    and v: "view1 = take off view @ bs @ drop (off + length bs) view"
    by (auto simp: SetViewValue_def split: if_splits)
  show ?thesis
    unfolding unchanged_outside_def
  proof (intro conjI allI impI)
    show "length view1 = length view" using le v by simp
  next
    fix i assume i: "i < length view" and out: "i < off \<or> off + length bs \<le> i"
    from out show "view1 ! i = view ! i"
    proof
      assume "i < off"
      with le v show ?thesis by (simp add: nth_append)
    next
      assume ge: "off + length bs \<le> i"
      from le have l: "length (take off view) = off" by simp
      from ge have n1: "\<not> i < off" and n2: "\<not> i - off < length bs" by linarith+
      have "view1 ! i = (bs @ drop (off + length bs) view) ! (i - off)"
        unfolding v nth_append l using n1 by simp
      also have "\<dots> = drop (off + length bs) view ! (i - off - length bs)"
        unfolding nth_append using n2 by simp
      also from ge i le have "\<dots> = view ! i" by simp
      finally show ?thesis .
    qed
  qed
qed

lemma GetViewValue_after_Set:
  assumes "SetViewValue view off True bs = Inr view1"
  shows "GetViewValue view1 off True (length bs) = Inr bs"
proof -
  from assms have le: "off + length bs \<le> length view"
    and v: "view1 = take off view @ bs @ drop (off + length bs) view"
    by (auto simp: SetViewValue_def split: if_splits)
  from le have "drop off view1 = bs @ drop (off + length bs) view"
    by (simp add: v)
  with le v show ?thesis by (simp add: GetViewValue_def)
qed

lemma SetViewValue_succeeds:
  "off + length bs \<le> length view \<Longrightarrow> \<exists>view1. SetViewValue view off le bs = Inr view1"
  by (simp add: SetViewValue_def)

lemma GetViewValue_unchanged:
  assumes "unchanged_outside view view1 lo hi" and "off + n \<le> lo \<or> hi \<le> off"
  shows "GetViewValue view1 off le n = GetViewValue view off le n"
proof (cases "off + n \<le> length view")
  case False
  with assms(1) show ?thesis by (simp add: GetViewValue_def unchanged_outside_def)
next
  case True
  from assms(1) have len: "length view1 = length view"
    and same: "\<And>i. i < length view \<Longrightarrow> i < lo \<or> hi \<le> i \<Longrightarrow> view1 ! i = view ! i"
    by (auto simp: unchanged_outside_def)
  have "take n (drop off view1) = take n (drop off view)"
  proof (rule nth_equalityI)
    show "length (take n (drop off view1)) = length (take n (drop off view))"
      using len by simp
  next
    fix i assume "i < length (take n (drop off view1))"
    then have i: "i < n" "off + i < length view" using len by auto
    with assms(2) have "off + i < lo \<or> hi \<le> off + i" by auto
    from same[OF i(2) this] i len True show "take n (drop off view1) ! i = take n (drop off view) ! i"
      by simp
  qed
  with len show ?thesis by (simp add: GetViewValue_def)
qed


subsection \<open>Primitive writes and reads\<close>

lemmas setter_defs =
  setUint8_def setInt8_def setUint16_def setInt16_def setUint32_def setInt32_def
  setBigUint64_def setBigInt64_def setFloat32_def setFloat64_def setInteger_def

lemmas getter_defs =
  getUint8_def getInt8_def getUint16_def getInt16_def getUint32_def getInt32_def
  getBigUint64_def getBigInt64_def getFloat32_def getFloat64_def getUnsigned_def getSigned_def

lemmas reader_defs =
  readU8_def readI8_def readU16_def readI16_def readU32_def readI32_def readU64_def
  readI64_def readF32_def readF64_def readPtr_def readBool_def

lemma writePrimitive_stores:
  "writePrimitive P view off k v = Inr view1 \<Longrightarrow>
   \<exists>bs. length bs = getTypeSize k \<and> SetViewValue view off True bs = Inr view1"
  by (cases k) (auto simp: setter_defs split: sum.splits intro: length_le_bytes)

lemma writePrimitive_unchanged_outside:
  assumes "writePrimitive P view off k v = Inr view1"
  shows "unchanged_outside view view1 off (off + getTypeSize k)"
proof -
  from writePrimitive_stores[OF assms] obtain bs where
    "length bs = getTypeSize k" "SetViewValue view off True bs = Inr view1" by blast
  with SetViewValue_unchanged_outside[of view off bs view1] show ?thesis by simp
qed

lemma readPrimitive_unchanged:
  assumes "unchanged_outside view view1 lo hi" and "off + getTypeSize k \<le> lo \<or> hi \<le> off"
  shows "readPrimitive P view1 off k = readPrimitive P view off k"
  using assms(2)
  by (cases k) (simp_all add: reader_defs getter_defs GetViewValue_unchanged[OF assms(1)])

lemma getUnsigned_after_set:
  assumes "SetViewValue view off True (le_bytes n x) = Inr view1"
  shows "getUnsigned n view1 off True = Inr (x mod 2 ^ (8 * n))"
  using GetViewValue_after_Set[OF assms] by (simp add: getUnsigned_def le_val_le_bytes)

lemma getSigned_after_set:
  assumes "SetViewValue view off True (le_bytes n x) = Inr view1"
  shows "getSigned n view1 off True = Inr (to_signed (8 * n) (x mod 2 ^ (8 * n)))"
  using GetViewValue_after_Set[OF assms] by (simp add: getSigned_def le_val_le_bytes)

lemma unsigned_roundtrip:
  assumes "0 \<le> x" and "x < 2 ^ (8 * n)" and "off + n \<le> length view"
  shows "\<exists>view1. SetViewValue view off True (le_bytes n x) = Inr view1
           \<and> getUnsigned n view1 off True = Inr x"
proof -
  from assms(3) obtain view1 where s: "SetViewValue view off True (le_bytes n x) = Inr view1"
    using SetViewValue_succeeds[of off "le_bytes n x" view True] by auto
  from getUnsigned_after_set[OF s] assms(1,2) have "getUnsigned n view1 off True = Inr x"
    by simp
  with s show ?thesis by blast
qed

lemma signed_roundtrip:
  assumes "0 < n" and "- (2 ^ (8 * n - 1)) \<le> x" and "x < 2 ^ (8 * n - 1)" and "off + n \<le> length view"
  shows "\<exists>view1. SetViewValue view off True (le_bytes n x) = Inr view1
           \<and> getSigned n view1 off True = Inr x"
proof -
  from assms(4) obtain view1 where s: "SetViewValue view off True (le_bytes n x) = Inr view1"
    using SetViewValue_succeeds[of off "le_bytes n x" view True] by auto
  from assms(1) have "0 < 8 * n" by simp
  from getSigned_after_set[OF s] to_signed_mod[OF this assms(2,3)]
  have "getSigned n view1 off True = Inr x" by simp
  with s show ?thesis by blast
qed

lemma float32_roundtrip:
  assumes "off + 4 \<le> length view"
  shows "\<exists>view1. SetViewValue view off True (le_bytes 4 (uint (w :: 32 word))) = Inr view1
           \<and> getFloat32 P view1 off True = Inr (from_float32 P w)"
proof -
  from assms obtain view1 where s: "SetViewValue view off True (le_bytes 4 (uint w)) = Inr view1"
    using SetViewValue_succeeds[of off "le_bytes 4 (uint w)" view True] by auto
  have "uint w mod 2 ^ (8 * 4) = uint w"
    using uint_lt2p[of w] by (intro mod_pos_pos_trivial) simp_all
  with GetViewValue_after_Set[OF s] have "getFloat32 P view1 off True = Inr (from_float32 P w)"
    by (simp add: getFloat32_def le_val_le_bytes)
  with s show ?thesis by blast
qed

lemma float64_roundtrip:
  assumes "off + 8 \<le> length view"
  shows "\<exists>view1. SetViewValue view off True (le_bytes 8 (uint (w :: 64 word))) = Inr view1
           \<and> getFloat64 P view1 off True = Inr (from_float64 P w)"
proof -
  from assms obtain view1 where s: "SetViewValue view off True (le_bytes 8 (uint w)) = Inr view1"
    using SetViewValue_succeeds[of off "le_bytes 8 (uint w)" view True] by auto
  have "uint w mod 2 ^ (8 * 8) = uint w"
    using uint_lt2p[of w] by (intro mod_pos_pos_trivial) simp_all
  with GetViewValue_after_Set[OF s] have "getFloat64 P view1 off True = Inr (from_float64 P w)"
    by (simp add: getFloat64_def le_val_le_bytes)
  with s show ?thesis by blast
qed


lemma writePrimitive_reads_back:
  assumes "representable P k v" and "off + getTypeSize k \<le> length view"
  shows "\<exists>view1. writePrimitive P view off k v = Inr view1 \<and> readPrimitive P view1 off k = Inr v"
proof (cases k)
  case U8
  with assms representable_number[where v=v and lo=0 and hi="2 ^ 8"]
  obtain n where v: "v = Num (of_int n)" "0 \<le> n" "n < 2 ^ (8 * 1)" "off + 1 \<le> length view"
    by auto
  from unsigned_roundtrip[OF v(2,3,4)] show ?thesis
    by (auto simp: U8 v(1) setter_defs reader_defs getter_defs)
next
  case I8
  with assms representable_number[where v=v and lo="- (2 ^ 7)" and hi="2 ^ 7"]
  obtain n where v: "v = Num (of_int n)" "- (2 ^ (8 * 1 - 1)) \<le> n" "n < 2 ^ (8 * 1 - 1)"
      "off + 1 \<le> length view"
    by auto
  from signed_roundtrip[OF _ v(2,3,4)] show ?thesis
    by (auto simp: I8 v(1) setter_defs reader_defs getter_defs)
next
  case U16
  with assms representable_number[where v=v and lo=0 and hi="2 ^ 16"]
  obtain n where v: "v = Num (of_int n)" "0 \<le> n" "n < 2 ^ (8 * 2)" "off + 2 \<le> length view"
    by auto
  from unsigned_roundtrip[OF v(2,3,4)] show ?thesis
    by (auto simp: U16 v(1) setter_defs reader_defs getter_defs)
next
  case I16
  with assms representable_number[where v=v and lo="- (2 ^ 15)" and hi="2 ^ 15"]
  obtain n where v: "v = Num (of_int n)" "- (2 ^ (8 * 2 - 1)) \<le> n" "n < 2 ^ (8 * 2 - 1)"
      "off + 2 \<le> length view"
    by auto
  from signed_roundtrip[OF _ v(2,3,4)] show ?thesis
    by (auto simp: I16 v(1) setter_defs reader_defs getter_defs)
next
  case U32
  with assms representable_number[where v=v and lo=0 and hi="2 ^ 32"]
  obtain n where v: "v = Num (of_int n)" "0 \<le> n" "n < 2 ^ (8 * 4)" "off + 4 \<le> length view"
    by auto
  from unsigned_roundtrip[OF v(2,3,4)] show ?thesis
    by (auto simp: U32 v(1) setter_defs reader_defs getter_defs)
next
  case I32
  with assms representable_number[where v=v and lo="- (2 ^ 31)" and hi="2 ^ 31"]
  obtain n where v: "v = Num (of_int n)" "- (2 ^ (8 * 4 - 1)) \<le> n" "n < 2 ^ (8 * 4 - 1)"
      "off + 4 \<le> length view"
    by auto
  from signed_roundtrip[OF _ v(2,3,4)] show ?thesis
    by (auto simp: I32 v(1) setter_defs reader_defs getter_defs)
next
  case U64
  with assms obtain n where v: "v = BigInt n" "0 \<le> n" "n < 2 ^ (8 * 8)" "off + 8 \<le> length view"
    by (cases v) simp_all
  from unsigned_roundtrip[OF v(2,3,4)] show ?thesis
    by (auto simp: U64 v(1) setter_defs reader_defs getter_defs)
next
  case Usize
  with assms obtain n where v: "v = BigInt n" "0 \<le> n" "n < 2 ^ (8 * 8)" "off + 8 \<le> length view"
    by (cases v) simp_all
  from unsigned_roundtrip[OF v(2,3,4)] show ?thesis
    by (auto simp: Usize v(1) setter_defs reader_defs getter_defs)
next
  case I64
  with assms obtain n where v: "v = BigInt n" "- (2 ^ (8 * 8 - 1)) \<le> n" "n < 2 ^ (8 * 8 - 1)"
      "off + 8 \<le> length view"
    by (cases v) simp_all
  from signed_roundtrip[OF _ v(2,3,4)] show ?thesis
    by (auto simp: I64 v(1) setter_defs reader_defs getter_defs)
next
  case F32
  with assms obtain n where v: "v = Num n" "from_float32 P (to_float32 P (Finite n)) = Num n"
      "off + 4 \<le> length view"
    by (cases v) simp_all
  from float32_roundtrip[OF v(3), of "to_float32 P (Finite n)" P] show ?thesis
    by (auto simp: F32 v(1,2) setter_defs reader_defs)
next
  case F64
  with assms obtain n where v: "v = Num n" "from_float64 P (to_float64 P (Finite n)) = Num n"
      "off + 8 \<le> length view"
    by (cases v) simp_all
  from float64_roundtrip[OF v(3), of "to_float64 P (Finite n)" P] show ?thesis
    by (auto simp: F64 v(1,2) setter_defs reader_defs)
next
  case Ptr
  with assms representable_number[where v=v and lo=0 and hi="2 ^ 53"]
  obtain n where v: "v = Num (of_int n)" "0 \<le> n" "n < 2 ^ 53" "off + 8 \<le> length view"
    by auto
  from v(3) have "n < 2 ^ (8 * 8)" by simp
  moreover from v(2,3) have "Number_of_bigint n = of_int n"
    by (intro Number_of_bigint_exact) simp
  ultimately show ?thesis
    using unsigned_roundtrip[OF v(2) _ v(4)]
    by (auto simp: Ptr v(1) setter_defs reader_defs getter_defs)
next
  case Bool
  with assms obtain b where v: "v = JSBool b" "off + 4 \<le> length view"
    by (cases v) simp_all
  have "(0::int) \<le> (if b then 1 else 0)" "(if b then 1 else 0) < (2::int) ^ (8 * 4)" by simp_all
  from unsigned_roundtrip[OF this v(2)] show ?thesis
    by (cases b) (auto simp: Bool v(1) setter_defs reader_defs getter_defs)
qed


subsection \<open>Arrays\<close>

lemma getTypeSize_TYPE_INFO: "ti_size (TYPE_INFO k) = getTypeSize k"
  by (cases k) simp_all

lemma element_range:
  "j < i \<Longrightarrow> off + j * sz + sz \<le> off + i * (sz::nat)"
proof -
  assume "j < i"
  then have "Suc j * sz \<le> i * sz" by (intro mult_le_mono1) simp
  then show ?thesis by simp
qed

lemma writeArray_unchanged_outside:
  "writeArray P view off k c arr i = Inr view1 \<Longrightarrow>
   unchanged_outside view view1 off (off + c * getTypeSize k)"
proof (induction P view off k c arr i rule: writeArray.induct)
  case (1 P view off k c arr i)
  show ?case
  proof (cases "i < c")
    case False
    with "1.prems" have "view1 = view" by (subst (asm) writeArray.simps) simp
    then show ?thesis by (simp add: unchanged_outside_refl)
  next
    case True
    from "1.prems" True obtain len b where len: "getProperty P arr ''length'' = Inr len"
      and b: "js_less i len = Inr b"
      by (subst (asm) writeArray.simps) (auto split: sum.splits)
    show ?thesis
    proof (cases b)
      case False
      with "1.prems" True len b have "view1 = view" by (subst (asm) writeArray.simps) simp
      then show ?thesis by (simp add: unchanged_outside_refl)
    next
      case less: True
      from "1.prems" True len b less obtain x view2 where
        x: "getElement P arr i = Inr x"
        and w: "writePrimitive P view (off + i * getTypeSize k) k x = Inr view2"
        and r: "writeArray P view2 off k c arr (Suc i) = Inr view1"
        by (subst (asm) writeArray.simps) (auto split: sum.splits)
      from element_range[OF True, of off "getTypeSize k"]
      have "unchanged_outside view view2 off (off + c * getTypeSize k)"
        by (intro unchanged_outside_mono[OF writePrimitive_unchanged_outside[OF w]]) simp_all
      moreover from less have "b = True" by simp
      from "1.IH"[OF True len b this x w r]
      have "unchanged_outside view2 view1 off (off + c * getTypeSize k)" .
      ultimately show ?thesis by (rule unchanged_outside_trans)
    qed
  qed
qed

lemma writeArray_reads_back:
  assumes "length xs \<le> c" and "list_all (representable P k) xs"
    and "off + c * getTypeSize k \<le> length view" and "i \<le> length xs"
    and "\<forall>j<i. readPrimitive P view (off + j * getTypeSize k) k = Inr (xs ! j)"
  shows "\<exists>view1. writeArray P view off k c (Arr xs) i = Inr view1
           \<and> (\<forall>j<length xs. readPrimitive P view1 (off + j * getTypeSize k) k = Inr (xs ! j))"
  using assms(3,4,5)
proof (induction "length xs - i" arbitrary: i view)
  case 0
  then have i: "i = length xs" by simp
  have "writeArray P view off k c (Arr xs) i = Inr view"
    by (subst writeArray.simps) (simp add: i)
  with 0 i show ?case by simp
next
  case (Suc d)
  let ?sz = "getTypeSize k"
  from Suc.hyps(2) have i: "i < length xs" by simp
  with assms(1) have ic: "i < c" by simp
  from i assms(2) have rep: "representable P k (xs ! i)" by (simp add: list_all_length)
  from element_range[OF ic, of off ?sz] Suc.prems(1)
  have fit: "off + i * ?sz + ?sz \<le> length view" by simp
  from writePrimitive_reads_back[OF rep, of "off + i * ?sz" view] fit
  obtain view2 where w: "writePrimitive P view (off + i * ?sz) k (xs ! i) = Inr view2"
    and r: "readPrimitive P view2 (off + i * ?sz) k = Inr (xs ! i)"
    by (auto simp: add.assoc)
  note frame = writePrimitive_unchanged_outside[OF w]
  have len: "length view2 = length view" using frame by (rule unchanged_outside_length)
  have inv: "\<forall>j<Suc i. readPrimitive P view2 (off + j * ?sz) k = Inr (xs ! j)"
  proof (intro allI impI)
    fix j assume "j < Suc i"
    then consider "j = i" | "j < i" by linarith
    then show "readPrimitive P view2 (off + j * ?sz) k = Inr (xs ! j)"
    proof cases
      case 1
      with r show ?thesis by simp
    next
      case 2
      from element_range[OF 2, of off ?sz]
      have "readPrimitive P view2 (off + j * ?sz) k = readPrimitive P view (off + j * ?sz) k"
        by (intro readPrimitive_unchanged[OF frame]) simp
      with Suc.prems(3) 2 show ?thesis by simp
    qed
  qed
  from Suc.hyps(2) have d: "d = length xs - Suc i" by simp
  from Suc.hyps(1)[OF d _ _ inv] Suc.prems(1) i len
  obtain view1 where rest: "writeArray P view2 off k c (Arr xs) (Suc i) = Inr view1"
    and all: "\<forall>j<length xs. readPrimitive P view1 (off + j * ?sz) k = Inr (xs ! j)"
    by auto
  have "writeArray P view off k c (Arr xs) i = Inr view1"
    using ic i w rest by (subst writeArray.simps) simp
  with all show ?case by blast
qed


subsection \<open>Fields and nested structs\<close>

lemma ordered_fields_le: "ordered_fields lo fs hi \<Longrightarrow> lo \<le> hi"
proof (induction fs arbitrary: lo)
  case Nil
  then show ?case by simp
next
  case (Cons f fs)
  from Cons.prems have "lo \<le> fl_offset f" and "ordered_fields (fl_offset f + fl_size f) fs hi"
    by auto
  with Cons.IH[of "fl_offset f + fl_size f"] show ?case by simp
qed

lemma writeField_unchanged_outside:
  "ordered_type ty \<Longrightarrow> writeField P view off ty v = Inr view1 \<Longrightarrow>
     unchanged_outside view view1 off (off + ti_size (getTypeInfo ty))"
  "ordered_fields lo fs hi \<Longrightarrow> writeNested P view off fs nv = Inr view1 \<Longrightarrow>
     unchanged_outside view view1 (off + lo) (off + hi)"
proof (induction P view off ty v and P view off fs nv arbitrary: view1 and lo hi view1
    rule: writeField_writeNested.induct)
  case (1 P view offset type "value")
  then show ?case
    using writePrimitive_unchanged_outside[of P view offset type "value" view1]
    by (simp add: getTypeSize_TYPE_INFO)
next
  case (2 P view offset nestedLayout "value")
  from "2.IH"[of 0 "sl_size nestedLayout" view1] "2.prems" show ?case by simp
next
  case (3 P view offset array count "value")
  then show ?case
    using writeArray_unchanged_outside[of P view offset array count "value" 0 view1]
    by (simp add: getTypeSize_TYPE_INFO Let_def mult.commute)
next
  case (4 P view offset nestedValue)
  then show ?case by (simp add: unchanged_outside_refl)
next
  case (5 P view offset nestedField rest nestedValue)
  let ?next = "fl_offset nestedField + fl_size nestedField"
  from "5.prems"(1) have lo: "lo \<le> fl_offset nestedField"
    and sz: "fl_size nestedField = ti_size (getTypeInfo (fl_type nestedField))"
    and ot: "ordered_type (fl_type nestedField)"
    and of: "ordered_fields ?next rest hi"
    by auto
  from ordered_fields_le[OF of] have hi: "?next \<le> hi" .
  from "5.prems"(2) obtain fieldValue where
    gp: "getProperty P nestedValue (fl_name nestedField) = Inr fieldValue"
    by (auto split: sum.splits)
  show ?case
  proof (cases "fieldValue = Undefined")
    case True
    with "5.prems"(2) gp have "writeNested P view offset rest nestedValue = Inr view1"
      by simp
    from "5.IH"(3)[OF gp _ of this] True
    have "unchanged_outside view view1 (offset + ?next) (offset + hi)" by simp
    from unchanged_outside_mono[OF this, of "offset + lo" "offset + hi"] lo
    show ?thesis by simp
  next
    case False
    with "5.prems"(2) gp obtain view2 where
      w: "writeField P view (offset + fl_offset nestedField) (fl_type nestedField) fieldValue = Inr view2"
      and r: "writeNested P view2 offset rest nestedValue = Inr view1"
      by (auto split: sum.splits)
    from "5.IH"(1)[OF gp False ot w]
    have "unchanged_outside view view2 (offset + fl_offset nestedField)
            (offset + fl_offset nestedField + ti_size (getTypeInfo (fl_type nestedField)))" .
    from unchanged_outside_mono[OF this, of "offset + lo" "offset + hi"] sz lo hi
    have "unchanged_outside view view2 (offset + lo) (offset + hi)" by simp
    moreover from "5.IH"(2)[OF gp False w of r]
    have "unchanged_outside view2 view1 (offset + ?next) (offset + hi)" .
    from unchanged_outside_mono[OF this, of "offset + lo" "offset + hi"] lo
    have "unchanged_outside view2 view1 (offset + lo) (offset + hi)" by simp
    ultimately show ?thesis by (rule unchanged_outside_trans)
  qed
qed



lemma representable_defined: "representable P k v \<Longrightarrow> v \<noteq> Undefined"
  by (cases k) auto

lemma fits_type_defined: "fits_type P ty v \<Longrightarrow> v \<noteq> Undefined"
  by (cases ty) (auto dest: representable_defined)

lemma reads_back_unchanged:
  "ordered_type ty \<Longrightarrow> fits_type P ty v \<Longrightarrow> unchanged_outside view view1 lo hi \<Longrightarrow>
     off + ti_size (getTypeInfo ty) \<le> lo \<or> hi \<le> off \<Longrightarrow>
     reads_back P view off ty v \<Longrightarrow> reads_back P view1 off ty v"
  "ordered_fields a fs b \<Longrightarrow> fits_fields P fs kvs \<Longrightarrow> unchanged_outside view view1 lo hi \<Longrightarrow>
     off + b \<le> lo \<or> hi \<le> off + a \<Longrightarrow>
     reads_back_fields P view off fs kvs \<Longrightarrow> reads_back_fields P view1 off fs kvs"
proof (induction P view off ty v and P view off fs kvs arbitrary: and a b
    rule: reads_back_reads_back_fields.induct)
  case (1 P view offset k v)
  from "1.prems"(4) have "offset + getTypeSize k \<le> lo \<or> hi \<le> offset"
    by (simp add: getTypeSize_TYPE_INFO)
  from readPrimitive_unchanged[OF "1.prems"(3) this] "1.prems"(5) show ?case by simp
next
  case (2 P view offset L v)
  from "2.prems"(2) obtain kvs where v: "v = Obj kvs" by (cases v) simp_all
  from "2.IH"[OF v, of 0 "sl_size L"] "2.prems" show ?case by (simp add: v)
next
  case (3 P view offset k c v)
  from "3.prems"(2) obtain xs where v: "v = Arr xs" and len: "length xs \<le> c"
    by (cases v) simp_all
  have "readPrimitive P view1 (offset + i * getTypeSize k) k = Inr (xs ! i)" if i: "i < length xs" for i
  proof -
    from i len have "i < c" by simp
    from element_range[OF this, of offset "getTypeSize k"] "3.prems"(4)
    have "offset + i * getTypeSize k + getTypeSize k \<le> lo \<or> hi \<le> offset + i * getTypeSize k"
      by (auto simp: getTypeSize_TYPE_INFO Let_def mult.commute)
    from readPrimitive_unchanged[OF "3.prems"(3) this, of P] "3.prems"(5) i show ?thesis
      by (simp add: v list_all_iff)
  qed
  then show ?case by (simp add: v list_all_iff)
next
  case (4 P view offset kvs)
  show ?case by simp
next
  case (5 P view offset f fs kvs)
  let ?next = "fl_offset f + fl_size f"
  from "5.prems"(1) have lo: "a \<le> fl_offset f"
    and sz: "fl_size f = ti_size (getTypeInfo (fl_type f))"
    and ot: "ordered_type (fl_type f)"
    and of: "ordered_fields ?next fs b"
    by auto
  from ordered_fields_le[OF of] have hi: "?next \<le> b" .
  from "5.prems"(2) obtain v where m: "map_of kvs (fl_name f) = Some v"
    and ft: "fits_type P (fl_type f) v" and ff: "fits_fields P fs kvs"
    by (auto split: option.splits)
  from "5.prems"(5) m have rb: "reads_back P view (offset + fl_offset f) (fl_type f) v"
    and rbs: "reads_back_fields P view offset fs kvs"
    by simp_all
  from "5.prems"(4) have tail_range: "offset + b \<le> lo \<or> hi \<le> offset + ?next"
    using lo by auto
  from "5.IH"(2)[OF of ff "5.prems"(3) tail_range rbs]
  have tail: "reads_back_fields P view1 offset fs kvs" .
  from "5.prems"(4) sz lo hi
  have "offset + fl_offset f + ti_size (getTypeInfo (fl_type f)) \<le> lo \<or> hi \<le> offset + fl_offset f"
    by auto
  from "5.IH"(1)[OF m ot ft "5.prems"(3) this rb]
  have "reads_back P view1 (offset + fl_offset f) (fl_type f) v" .
  with tail m show ?case by simp
qed

lemma writeField_reads_back:
  "ordered_type ty \<Longrightarrow> fits_type P ty v \<Longrightarrow> off + ti_size (getTypeInfo ty) \<le> length view \<Longrightarrow>
     \<exists>view1. writeField P view off ty v = Inr view1 \<and> reads_back P view1 off ty v"
  "ordered_fields lo fs hi \<Longrightarrow> nv = Obj kvs \<Longrightarrow> fits_fields P fs kvs \<Longrightarrow> off + hi \<le> length view \<Longrightarrow>
     \<exists>view1. writeNested P view off fs nv = Inr view1 \<and> reads_back_fields P view1 off fs kvs"
proof (induction P view off ty v and P view off fs nv arbitrary: and lo hi kvs
    rule: writeField_writeNested.induct)
  case (1 P view offset type "value")
  then show ?case
    using writePrimitive_reads_back[of P type "value" offset view]
    by (simp add: getTypeSize_TYPE_INFO)
next
  case (2 P view offset nestedLayout "value")
  from "2.prems"(2) obtain kvs where v: "value = Obj kvs"
    and ff: "fits_fields P (sl_fields nestedLayout) kvs"
    by (cases "value") simp_all
  from "2.IH"[OF _ v ff, of 0 "sl_size nestedLayout"] "2.prems"(1,3) show ?case
    by (simp add: v)
next
  case (3 P view offset array count "value")
  from "3.prems"(2) obtain xs where v: "value = Arr xs" and len: "length xs \<le> count"
    and rep: "list_all (representable P array) xs"
    by (cases "value") simp_all
  from "3.prems"(3) have "offset + count * getTypeSize array \<le> length view"
    by (simp add: getTypeSize_TYPE_INFO Let_def mult.commute)
  from writeArray_reads_back[OF len rep this, of 0] show ?case
    by (auto simp: v list_all_iff)
next
  case (4 P view offset nestedValue)
  show ?case by simp
next
  case (5 P view offset nestedField rest nestedValue)
  let ?next = "fl_offset nestedField + fl_size nestedField"
  let ?name = "fl_name nestedField"
  from "5.prems"(1) have lo: "lo \<le> fl_offset nestedField"
    and sz: "fl_size nestedField = ti_size (getTypeInfo (fl_type nestedField))"
    and ot: "ordered_type (fl_type nestedField)"
    and of: "ordered_fields ?next rest hi"
    by auto
  from ordered_fields_le[OF of] have hi: "?next \<le> hi" .
  from "5.prems"(3) obtain fieldValue where m: "map_of kvs ?name = Some fieldValue"
    and ft: "fits_type P (fl_type nestedField) fieldValue" and ff: "fits_fields P rest kvs"
    by (auto split: option.splits)
  from ft have defined: "fieldValue \<noteq> Undefined" by (rule fits_type_defined)
  have gp: "getProperty P nestedValue ?name = Inr fieldValue"
    by (simp add: "5.prems"(2) recordGet_def m)
  from "5.prems"(4) hi sz
  have fit: "offset + fl_offset nestedField + ti_size (getTypeInfo (fl_type nestedField)) \<le> length view"
    by simp
  from "5.IH"(1)[OF gp defined ot ft fit]
  obtain view2 where
    w: "writeField P view (offset + fl_offset nestedField) (fl_type nestedField) fieldValue = Inr view2"
    and rb2: "reads_back P view2 (offset + fl_offset nestedField) (fl_type nestedField) fieldValue"
    by blast
  from writeField_unchanged_outside(1)[OF ot w]
  have len2: "length view2 = length view" by (rule unchanged_outside_length)
  from "5.IH"(2)[OF gp defined w of "5.prems"(2) ff] "5.prems"(4) len2
  obtain view1 where r: "writeNested P view2 offset rest nestedValue = Inr view1"
    and rb: "reads_back_fields P view1 offset rest kvs"
    by auto
  from writeField_unchanged_outside(2)[OF of r]
  have frame: "unchanged_outside view2 view1 (offset + ?next) (offset + hi)" .
  have "offset + fl_offset nestedField + ti_size (getTypeInfo (fl_type nestedField)) \<le> offset + ?next
        \<or> offset + hi \<le> offset + fl_offset nestedField"
    using sz by simp
  from reads_back_unchanged(1)[OF ot ft frame this rb2]
  have rb1: "reads_back P view1 (offset + fl_offset nestedField) (fl_type nestedField) fieldValue" .
  from gp defined w r
  have "writeNested P view offset (nestedField # rest) nestedValue = Inr view1" by simp
  moreover from m rb1 rb have "reads_back_fields P view1 offset (nestedField # rest) kvs"
    by simp
  ultimately show ?case by blast
qed

lemma encode_loop_writeNested:
  "encode_loop P view fs values = writeNested P view 0 fs (Obj values)"
  by (induction fs arbitrary: view) (auto simp: Let_def split: sum.splits)

lemma ordered_spec_offsets:
  "\<forall>d\<in>set ds. ordered_type (fd_type d) \<Longrightarrow> lo \<le> r \<Longrightarrow> spec_final_offset r ds \<le> hi \<Longrightarrow>
   ordered_fields lo (spec_offsets r ds) hi"
proof (induction ds arbitrary: lo r)
  case Nil
  then show ?case by simp
next
  case (Cons d ds)
  let ?o = "align r (ti_alignment (getTypeInfo (fd_type d)))"
  let ?s = "ti_size (getTypeInfo (fd_type d))"
  from Cons.prems(3) have fin: "spec_final_offset (?o + ?s) ds \<le> hi"
    by (simp add: spec_align_eq)
  from Cons.prems(1) have "\<forall>d\<in>set ds. ordered_type (fd_type d)" by simp
  from Cons.IH[OF this _ fin, of "?o + ?s"]
  have "ordered_fields (?o + ?s) (spec_offsets (?o + ?s) ds) hi" by simp
  moreover from Cons.prems(2) align_ge[of r] have "lo \<le> ?o" using le_trans by blast
  moreover from Cons.prems(1) have "ordered_type (fd_type d)" by simp
  ultimately show ?case by (simp add: Let_def spec_align_eq)
qed

lemma ordered_defineStruct:
  "\<forall>d\<in>set ds. ordered_type (fd_type d) \<Longrightarrow> ordered_layout (defineStruct name ds)"
  unfolding ordered_layout_def defineStruct_eq_spec spec_computeLayout_def
  by (simp add: ordered_spec_offsets spec_align_eq align_ge)


subsection \<open>Encoding and reading back\<close>

lemma reads_back_fields_member:
  "reads_back_fields P view off fs kvs \<Longrightarrow> f \<in> set fs \<Longrightarrow>
   \<exists>v. map_of kvs (fl_name f) = Some v \<and> reads_back P view (off + fl_offset f) (fl_type f) v"
  by (induction fs) (auto split: option.splits)

lemma encode_loop_length:
  "encode_loop P view fs values = Inr view1 \<Longrightarrow> ordered_fields lo fs hi \<Longrightarrow> length view1 = length view"
  using writeField_unchanged_outside(2)[of lo fs hi P view 0 "Obj values" view1]
  by (simp add: encode_loop_writeNested unchanged_outside_length)

text \<open>
  Claim C3, as amended.  Every layout that \<^verbatim>\<open>defineStruct\<close> computes from field types whose
  nested layouts are laid out in order is laid out in order.  For every layout laid out in
  order and every value map that covers its fields with values that fit them, \<^verbatim>\<open>encode\<close>
  succeeds with a buffer of the layout's size, and every field reads back as the value the
  map holds for it: a primitive through the read method of its kind at the field's offset,
  a nested struct field by field, an array element by element.
\<close>

theorem encode_then_read_roundtrip:
  "((\<forall>d\<in>set ds. ordered_type (fd_type d)) \<longrightarrow> ordered_layout (defineStruct name ds))
   \<and> (ordered_layout layout \<and> fits_fields P (sl_fields layout) values \<longrightarrow>
        (\<exists>encoded encoder1.
            encode P this layout values = Inr (encoded, encoder1)
            \<and> length (es_buffer encoded) = sl_size layout
            \<and> (\<forall>f\<in>set (sl_fields layout). \<exists>v.
                  map_of values (fl_name f) = Some v
                  \<and> reads_back P (es_buffer encoded) (fl_offset f) (fl_type f) v)))"
proof (intro conjI impI)
  assume "\<forall>d\<in>set ds. ordered_type (fd_type d)"
  then show "ordered_layout (defineStruct name ds)" by (rule ordered_defineStruct)
next
  assume a: "ordered_layout layout \<and> fits_fields P (sl_fields layout) values"
  then have ord: "ordered_fields 0 (sl_fields layout) (sl_size layout)"
    and fits: "fits_fields P (sl_fields layout) values"
    by (simp_all add: ordered_layout_def)
  let ?zero = "replicate (sl_size layout) (0::byte)"
  from writeField_reads_back(2)[OF ord refl fits, of 0 ?zero]
  obtain u8 where w: "writeNested P ?zero 0 (sl_fields layout) (Obj values) = Inr u8"
    and rb: "reads_back_fields P u8 0 (sl_fields layout) values"
    by auto
  from w have loop: "encode_loop P ?zero (sl_fields layout) values = Inr u8"
    by (simp add: encode_loop_writeNested)
  from encode_loop_length[OF loop ord] have len: "length u8 = sl_size layout" by simp
  let ?encoded = "\<lparr>es_buffer = u8, es_ptr = ffi_ptr P u8, es_size = sl_size layout\<rparr>"
  have "encode P this layout values = Inr (?encoded, this\<lparr>allocations := allocations this @ [u8]\<rparr>)"
    by (simp add: encode_def loop)
  moreover have "length (es_buffer ?encoded) = sl_size layout" using len by simp
  moreover have "\<forall>f\<in>set (sl_fields layout). \<exists>v.
                  map_of values (fl_name f) = Some v
                  \<and> reads_back P (es_buffer ?encoded) (fl_offset f) (fl_type f) v"
    using reads_back_fields_member[OF rb] by simp
  ultimately show "\<exists>encoded encoder1.
            encode P this layout values = Inr (encoded, encoder1)
            \<and> length (es_buffer encoded) = sl_size layout
            \<and> (\<forall>f\<in>set (sl_fields layout). \<exists>v.
                  map_of values (fl_name f) = Some v
                  \<and> reads_back P (es_buffer encoded) (fl_offset f) (fl_type f) v)"
    by blast
qed

text \<open>
  A value outside the range of its kind is stored modulo \<open>2\<^sup>w\<close>: 300 in a \<^verbatim>\<open>u8\<close> field reads
  back as 44.  A number with a fractional part is truncated: 3.5 in a \<^verbatim>\<open>u8\<close> field reads back
  as 3.  A number in a \<^verbatim>\<open>u64\<close> field reads back as a bigint.  In a hand-written layout whose
  fields overlap, a later field overwrites an earlier one: 258 in the \<^verbatim>\<open>u16\<close> field reads
  back as 1282.
\<close>

theorem roundtrip_counterexample:
  "encode boom_platform \<lparr>allocations = []\<rparr> (one_field_layout U8) [(''a'', Num 300)]
     = Inr (\<lparr>es_buffer = [44], es_ptr = 8192, es_size = 1\<rparr>, \<lparr>allocations = [[44]]\<rparr>)
   \<and> readU8 [44] 0 = Inr (Num 44)
   \<and> Num 44 \<noteq> Num 300
   \<and> encode boom_platform \<lparr>allocations = []\<rparr> (one_field_layout U8) [(''a'', Num (7 / 2))]
     = Inr (\<lparr>es_buffer = [3], es_ptr = 8192, es_size = 1\<rparr>, \<lparr>allocations = [[3]]\<rparr>)
   \<and> readU8 [3] 0 = Inr (Num 3)
   \<and> Num 3 \<noteq> Num (7 / 2)
   \<and> encode boom_platform \<lparr>allocations = []\<rparr> (one_field_layout U64) [(''a'', Num 5)]
     = Inr (\<lparr>es_buffer = [5, 0, 0, 0, 0, 0, 0, 0], es_ptr = 8192, es_size = 8\<rparr>,
            \<lparr>allocations = [[5, 0, 0, 0, 0, 0, 0, 0]]\<rparr>)
   \<and> readU64 [5, 0, 0, 0, 0, 0, 0, 0] 0 = Inr (BigInt 5)
   \<and> BigInt 5 \<noteq> Num 5
   \<and> encode boom_platform \<lparr>allocations = []\<rparr> overlapping_layout [(''a'', Num 258), (''b'', Num 5)]
     = Inr (\<lparr>es_buffer = [2, 5], es_ptr = 8192, es_size = 2\<rparr>, \<lparr>allocations = [[2, 5]]\<rparr>)
   \<and> readU16 [2, 5] 0 = Inr (Num 1282)
   \<and> Num 1282 \<noteq> Num 258"
  by code_simp

lemma outer_layout_eq:
  "outer_layout = StructLayout ''Outer''
     [FieldLayout ''tag'' (Prim U8) 0 1 1,
      FieldLayout ''inner''
        (Struct (StructLayout ''Inner''
           [FieldLayout ''x'' (Prim U16) 0 2 2, FieldLayout ''y'' (Prim U64) 8 8 8] 16 8)) 8 16 8,
      FieldLayout ''data'' (Array U16 3) 24 6 2,
      FieldLayout ''flag'' (Prim Bool) 32 4 4,
      FieldLayout ''handle'' (Prim Ptr) 40 8 8,
      FieldLayout ''ratio'' (Prim F32) 48 4 4,
      FieldLayout ''scale'' (Prim F64) 56 8 8] 64 8"
  by code_simp

theorem encode_then_read_roundtrip_witness:
  "ordered_layout outer_layout
   \<and> (\<exists>encoded encoder1.
         encode boom_platform \<lparr>allocations = []\<rparr> outer_layout outer_values = Inr (encoded, encoder1)
         \<and> length (es_buffer encoded) = 64
         \<and> readU8 (es_buffer encoded) 0 = Inr (Num 200)
         \<and> readU16 (es_buffer encoded) 8 = Inr (Num 513)
         \<and> readU64 (es_buffer encoded) 16 = Inr (BigInt 1099511627783)
         \<and> readU16 (es_buffer encoded) 24 = Inr (Num 1)
         \<and> readU16 (es_buffer encoded) 26 = Inr (Num 2)
         \<and> readBool (es_buffer encoded) 32 = Inr (JSBool True)
         \<and> readPtr (es_buffer encoded) 40 = Inr (Num 4096)
         \<and> readF32 boom_platform (es_buffer encoded) 48 = Inr (Num (1 / 2))
         \<and> readF64 boom_platform (es_buffer encoded) 56 = Inr (Num (3 / 2)))"
proof -
  let ?ds = "[\<lparr>fd_name = ''tag'', fd_type = Prim U8\<rparr>,
        \<lparr>fd_name = ''inner'', fd_type = Struct inner_layout\<rparr>,
        \<lparr>fd_name = ''data'', fd_type = Array U16 3\<rparr>,
        \<lparr>fd_name = ''flag'', fd_type = Prim Bool\<rparr>,
        \<lparr>fd_name = ''handle'', fd_type = Prim Ptr\<rparr>,
        \<lparr>fd_name = ''ratio'', fd_type = Prim F32\<rparr>,
        \<lparr>fd_name = ''scale'', fd_type = Prim F64\<rparr>]"
  note rt = encode_then_read_roundtrip [of ?ds "''Outer''" outer_layout boom_platform outer_values
      "\<lparr>allocations = []\<rparr>"]
  have "ordered_type (Struct inner_layout)" by code_simp
  then have "\<forall>d\<in>set ?ds. ordered_type (fd_type d)" by simp
  with rt have ord: "ordered_layout outer_layout" by (simp add: outer_layout_def)
  have fits: "fits_fields boom_platform (sl_fields outer_layout) outer_values" by code_simp
  from rt ord fits obtain encoded encoder1 where
    e: "encode boom_platform \<lparr>allocations = []\<rparr> outer_layout outer_values = Inr (encoded, encoder1)"
    and len: "length (es_buffer encoded) = sl_size outer_layout"
    and rb: "\<And>f. f \<in> set (sl_fields outer_layout) \<Longrightarrow>
               \<exists>v. map_of outer_values (fl_name f) = Some v
                 \<and> reads_back boom_platform (es_buffer encoded) (fl_offset f) (fl_type f) v"
    by blast
  have f1: "readU8 (es_buffer encoded) 0 = Inr (Num 200)"
    using rb[of "FieldLayout ''tag'' (Prim U8) 0 1 1"]
    by (simp add: outer_layout_eq outer_values_def)
  have f2: "readU16 (es_buffer encoded) 8 = Inr (Num 513)
            \<and> readU64 (es_buffer encoded) 16 = Inr (BigInt 1099511627783)"
    using rb[of "FieldLayout ''inner''
        (Struct (StructLayout ''Inner''
           [FieldLayout ''x'' (Prim U16) 0 2 2, FieldLayout ''y'' (Prim U64) 8 8 8] 16 8)) 8 16 8"]
    by (simp add: outer_layout_eq outer_values_def)
  have f3: "readU16 (es_buffer encoded) 24 = Inr (Num 1)
            \<and> readU16 (es_buffer encoded) 26 = Inr (Num 2)"
    using rb[of "FieldLayout ''data'' (Array U16 3) 24 6 2"]
    by (simp add: outer_layout_eq outer_values_def upt_rec)
  have f4: "readBool (es_buffer encoded) 32 = Inr (JSBool True)"
    using rb[of "FieldLayout ''flag'' (Prim Bool) 32 4 4"]
    by (simp add: outer_layout_eq outer_values_def)
  have f5: "readPtr (es_buffer encoded) 40 = Inr (Num 4096)"
    using rb[of "FieldLayout ''handle'' (Prim Ptr) 40 8 8"]
    by (simp add: outer_layout_eq outer_values_def)
  have f6: "readF32 boom_platform (es_buffer encoded) 48 = Inr (Num (1 / 2))"
    using rb[of "FieldLayout ''ratio'' (Prim F32) 48 4 4"]
    by (simp add: outer_layout_eq outer_values_def)
  have f7: "readF64 boom_platform (es_buffer encoded) 56 = Inr (Num (3 / 2))"
    using rb[of "FieldLayout ''scale'' (Prim F64) 56 8 8"]
    by (simp add: outer_layout_eq outer_values_def)
  from len have "length (es_buffer encoded) = 64" by (simp add: outer_layout_eq)
  with ord e f1 f2 f3 f4 f5 f6 f7 show ?thesis by blast
qed


subsection \<open>Values that do not match the declared kind\<close>

lemma writePrimitive_length:
  "writePrimitive P view off k v = Inr view1 \<Longrightarrow> length view1 = length view"
  using writePrimitive_unchanged_outside[of P view off k v view1]
  by (simp add: unchanged_outside_length)

lemma writePrimitive_isl:
  "length view' = length view \<Longrightarrow>
   isl (writePrimitive P view' off k v) = isl (writePrimitive P view off k v)"
  by (cases k) (auto simp: setter_defs SetViewValue_def split: sum.splits)

lemma writeArray_length:
  "writeArray P view off k c arr i = Inr view1 \<Longrightarrow> length view1 = length view"
  using writeArray_unchanged_outside[of P view off k c arr i view1]
  by (simp add: unchanged_outside_length)

lemma writeArray_isl:
  "length view' = length view \<Longrightarrow>
   isl (writeArray P view' off k c arr i) = isl (writeArray P view off k c arr i)"
proof (induction P view off k c arr i arbitrary: view' rule: writeArray.induct)
  case (1 P view off k c arr i)
  show ?case
  proof (cases "i < c")
    case False
    then show ?thesis by (simp add: writeArray.simps)
  next
    case True
    show ?thesis
    proof (cases "getProperty P arr ''length''")
      case (Inl e)
      with True show ?thesis by (simp add: writeArray.simps)
    next
      case len: (Inr len)
      show ?thesis
      proof (cases "js_less i len")
        case (Inl e)
        with True len show ?thesis by (simp add: writeArray.simps)
      next
        case b: (Inr b)
        show ?thesis
        proof (cases b)
          case False
          with True len b show ?thesis by (simp add: writeArray.simps)
        next
          case less: True
          then have bt: "b = True" by simp
          show ?thesis
          proof (cases "getElement P arr i")
            case (Inl e)
            with True len b less show ?thesis by (simp add: writeArray.simps)
          next
            case x: (Inr x)
            show ?thesis
            proof (cases "writePrimitive P view (off + i * getTypeSize k) k x")
              case (Inl e)
              with writePrimitive_isl[OF "1.prems", of P "off + i * getTypeSize k" k x]
              obtain e' where "writePrimitive P view' (off + i * getTypeSize k) k x = Inl e'"
                by (cases "writePrimitive P view' (off + i * getTypeSize k) k x") simp_all
              with Inl True len b less x show ?thesis
                by (subst writeArray.simps, subst (2) writeArray.simps) simp
            next
              case w: (Inr view1)
              with writePrimitive_isl[OF "1.prems", of P "off + i * getTypeSize k" k x]
              obtain view1' where w': "writePrimitive P view' (off + i * getTypeSize k) k x = Inr view1'"
                by (cases "writePrimitive P view' (off + i * getTypeSize k) k x") simp_all
              from writePrimitive_length[OF w] writePrimitive_length[OF w'] "1.prems"
              have "length view1' = length view1" by simp
              from "1.IH"[OF True len b bt x w this]
              have "isl (writeArray P view1' off k c arr (Suc i))
                    = isl (writeArray P view1 off k c arr (Suc i))" .
              with True len b less x w w' show ?thesis
                by (subst writeArray.simps, subst (2) writeArray.simps) simp
            qed
          qed
        qed
      qed
    qed
  qed
qed

lemma writeField_length:
  "writeField P view off ty v = Inr view1 \<Longrightarrow> length view1 = length view"
  "writeNested P view off fs nv = Inr view1 \<Longrightarrow> length view1 = length view"
proof (induction P view off ty v and P view off fs nv arbitrary: view1 and view1
    rule: writeField_writeNested.induct)
  case (1 P view offset type "value")
  then show ?case by (simp add: writePrimitive_length)
next
  case (2 P view offset nestedLayout "value")
  then show ?case by simp
next
  case (3 P view offset array count "value")
  then show ?case by (simp add: writeArray_length)
next
  case (4 P view offset nestedValue)
  then show ?case by simp
next
  case (5 P view offset nestedField rest nestedValue)
  from "5.prems" obtain fieldValue where
    gp: "getProperty P nestedValue (fl_name nestedField) = Inr fieldValue"
    by (auto split: sum.splits)
  show ?case
  proof (cases "fieldValue = Undefined")
    case True
    with "5.prems" gp have "writeNested P view offset rest nestedValue = Inr view1" by simp
    from "5.IH"(3)[OF gp _ this] True show ?thesis by simp
  next
    case False
    with "5.prems" gp obtain view2 where
      w: "writeField P view (offset + fl_offset nestedField) (fl_type nestedField) fieldValue = Inr view2"
      and r: "writeNested P view2 offset rest nestedValue = Inr view1"
      by (auto split: sum.splits)
    from "5.IH"(1)[OF gp False w] "5.IH"(2)[OF gp False w r] show ?thesis by simp
  qed
qed

lemma writeField_isl:
  "length view' = length view \<Longrightarrow>
   isl (writeField P view' off ty v) = isl (writeField P view off ty v)"
  "length view' = length view \<Longrightarrow>
   isl (writeNested P view' off fs nv) = isl (writeNested P view off fs nv)"
proof (induction P view off ty v and P view off fs nv arbitrary: view' and view'
    rule: writeField_writeNested.induct)
  case (1 P view offset type "value")
  from writePrimitive_isl[OF "1.prems", of P offset type "value"] show ?case by simp
next
  case (2 P view offset nestedLayout "value")
  from "2.IH"[OF "2.prems"] show ?case by simp
next
  case (3 P view offset array count "value")
  from writeArray_isl[OF "3.prems", of P offset array count "value" 0] show ?case by simp
next
  case (4 P view offset nestedValue)
  show ?case by simp
next
  case (5 P view offset nestedField rest nestedValue)
  let ?off = "offset + fl_offset nestedField"
  let ?ty = "fl_type nestedField"
  show ?case
  proof (cases "getProperty P nestedValue (fl_name nestedField)")
    case (Inl e)
    then show ?thesis by simp
  next
    case gp: (Inr fieldValue)
    show ?thesis
    proof (cases "fieldValue = Undefined")
      case True
      from "5.IH"(3)[OF gp _ "5.prems"] True gp show ?thesis by simp
    next
      case False
      show ?thesis
      proof (cases "writeField P view ?off ?ty fieldValue")
        case (Inl e)
        with "5.IH"(1)[OF gp False "5.prems"]
        obtain e' where "writeField P view' ?off ?ty fieldValue = Inl e'"
          by (cases "writeField P view' ?off ?ty fieldValue") simp_all
        with Inl gp False show ?thesis by simp
      next
        case w: (Inr view2)
        with "5.IH"(1)[OF gp False "5.prems"]
        obtain view2' where w': "writeField P view' ?off ?ty fieldValue = Inr view2'"
          by (cases "writeField P view' ?off ?ty fieldValue") simp_all
        from writeField_length(1)[OF w] writeField_length(1)[OF w'] "5.prems"
        have "length view2' = length view2" by simp
        from "5.IH"(2)[OF gp False w this] gp False w w' show ?thesis by simp
      qed
    qed
  qed
qed

lemma encode_loop_fails_iff:
  "length view = length view0 \<Longrightarrow>
   isl (encode_loop P view fs values) \<longleftrightarrow>
     (\<exists>f\<in>set fs. recordGet values (fl_name f) \<noteq> Undefined
        \<and> isl (writeField P view0 (fl_offset f) (fl_type f) (recordGet values (fl_name f))))"
proof (induction fs arbitrary: view)
  case Nil
  show ?case by simp
next
  case (Cons f fs)
  let ?v = "recordGet values (fl_name f)"
  show ?case
  proof (cases "?v = Undefined")
    case True
    with Cons.IH[OF Cons.prems] show ?thesis by (simp add: Let_def)
  next
    case False
    note same = writeField_isl(1)[OF Cons.prems, of P "fl_offset f" "fl_type f" ?v]
    show ?thesis
    proof (cases "writeField P view (fl_offset f) (fl_type f) ?v")
      case (Inl e)
      with same False show ?thesis by (auto simp: Let_def)
    next
      case (Inr view1)
      from writeField_length(1)[OF Inr] Cons.prems have "length view1 = length view0" by simp
      from Cons.IH[OF this] Inr same False show ?thesis by (auto simp: Let_def)
    qed
  qed
qed

lemma encode_loop_error_origin:
  "encode_loop P view fs values = Inl e \<Longrightarrow>
   \<exists>f\<in>set fs. \<exists>view1. length view1 = length view
      \<and> recordGet values (fl_name f) \<noteq> Undefined
      \<and> writeField P view1 (fl_offset f) (fl_type f) (recordGet values (fl_name f)) = Inl e"
proof (induction fs arbitrary: view)
  case Nil
  then show ?case by simp
next
  case (Cons f fs)
  let ?v = "recordGet values (fl_name f)"
  show ?case
  proof (cases "?v = Undefined")
    case True
    with Cons.prems have "encode_loop P view fs values = Inl e" by (simp add: Let_def)
    from Cons.IH[OF this] show ?thesis by auto
  next
    case False
    show ?thesis
    proof (cases "writeField P view (fl_offset f) (fl_type f) ?v")
      case (Inl e')
      with Cons.prems False have "e' = e" by (simp add: Let_def)
      with Inl False show ?thesis by auto
    next
      case (Inr view1)
      with Cons.prems False have "encode_loop P view1 fs values = Inl e" by (simp add: Let_def)
      from Cons.IH[OF this] writeField_length(1)[OF Inr] show ?thesis by auto
    qed
  qed
qed

lemma writePrimitive_fails_iff:
  assumes "off + getTypeSize k \<le> length view"
  shows "isl (writePrimitive P view off k v) \<longleftrightarrow>
     (if k \<in> {U64, I64, Usize} then isl (BigInt_of P v)
      else if k = Ptr then isl (BigInt_of P (if v = Undefined \<or> v = Null then Num 0 else v))
      else isl (ToNumber v))"
  using assms
  by (cases k) (auto simp: setter_defs SetViewValue_def split: sum.splits)

lemma writePrimitive_boolean:
  assumes "k \<in> {U8, I8, U16, I16, U32, I32}" and "off + getTypeSize k \<le> length view"
  shows "\<exists>view1. writePrimitive P view off k (JSBool b) = Inr view1
           \<and> readPrimitive P view1 off k = Inr (Num (if b then 1 else 0))"
proof -
  have "is_integer (if b then 1 else 0)" by (simp add: is_integer_def)
  with assms(1) have "representable P k (Num (if b then 1 else 0))"
    by (auto simp: integer_between_def)
  from writePrimitive_reads_back[OF this assms(2)]
  obtain view1 where "writePrimitive P view off k (Num (if b then 1 else 0)) = Inr view1"
    and "readPrimitive P view1 off k = Inr (Num (if b then 1 else 0))"
    by blast
  moreover from assms(1)
  have "writePrimitive P view off k (JSBool b) = writePrimitive P view off k (Num (if b then 1 else 0))"
    by (auto simp: setter_defs)
  ultimately show ?thesis by auto
qed

text \<open>
  Claim C5, as amended.  \<^verbatim>\<open>encode\<close> makes no check of a value's runtime type: it hands every
  value that is not \<^verbatim>\<open>undefined\<close> to the write of its field.  \<^verbatim>\<open>encode\<close> raises an error
  exactly when the write of one of the fields raises one (which depends on the buffer only
  through its size), and the error it raises is the error of such a write.  The write of a
  primitive field that lies inside the buffer raises an error exactly when the conversion
  of the kind's setter throws: \<^verbatim>\<open>BigInt(value)\<close> for \<^verbatim>\<open>u64\<close>, \<^verbatim>\<open>i64\<close> and \<^verbatim>\<open>usize\<close>,
  \<^verbatim>\<open>BigInt(value ?? 0)\<close> for \<^verbatim>\<open>ptr\<close>, and \<^verbatim>\<open>ToNumber(value)\<close> for every other kind.  So the
  write of a bigint to a field of a number, boolean or float kind raises a \<^verbatim>\<open>TypeError\<close>; the
  write of \<^verbatim>\<open>null\<close> to a \<^verbatim>\<open>u64\<close>, \<^verbatim>\<open>i64\<close> or \<^verbatim>\<open>usize\<close> field raises a \<^verbatim>\<open>TypeError\<close>; the write of a
  number with a fractional part to a \<^verbatim>\<open>u64\<close>, \<^verbatim>\<open>i64\<close>, \<^verbatim>\<open>usize\<close> or \<^verbatim>\<open>ptr\<close> field raises a
  \<^verbatim>\<open>RangeError\<close>, and the write of the empty record to such a field a \<^verbatim>\<open>SyntaxError\<close>; the
  write of a boolean to a field of an integer kind of up to 32 bits inside the buffer
  raises nothing and stores the number 1 or 0.
\<close>

theorem encode_fails_iff_conversion_throws:
  "(isl (encode P this layout values) \<longleftrightarrow>
      (\<exists>f\<in>set (sl_fields layout).
          recordGet values (fl_name f) \<noteq> Undefined
          \<and> isl (writeField P (replicate (sl_size layout) 0) (fl_offset f) (fl_type f)
                   (recordGet values (fl_name f)))))
   \<and> (encode P this layout values = Inl e \<longrightarrow>
        (\<exists>f\<in>set (sl_fields layout). \<exists>view1.
            length view1 = sl_size layout
            \<and> recordGet values (fl_name f) \<noteq> Undefined
            \<and> writeField P view1 (fl_offset f) (fl_type f) (recordGet values (fl_name f)) = Inl e))
   \<and> (off + getTypeSize k \<le> length view \<longrightarrow>
        (isl (writeField P view off (Prim k) v) \<longleftrightarrow>
           (if k \<in> {U64, I64, Usize} then isl (BigInt_of P v)
            else if k = Ptr then isl (BigInt_of P (if v = Undefined \<or> v = Null then Num 0 else v))
            else isl (ToNumber v))))
   \<and> (k \<in> {U8, I8, U16, I16, U32, I32, Bool, F32, F64} \<longrightarrow>
        writeField P view off (Prim k) (BigInt n) = Inl TypeError)
   \<and> (k \<in> {U64, I64, Usize} \<longrightarrow> writeField P view off (Prim k) Null = Inl TypeError)
   \<and> (k \<in> {U64, I64, Usize, Ptr} \<and> \<not> is_integer x \<longrightarrow>
        writeField P view off (Prim k) (Num x) = Inl RangeError)
   \<and> (k \<in> {U64, I64, Usize, Ptr} \<longrightarrow> writeField P view off (Prim k) (Obj []) = Inl SyntaxError)
   \<and> (k \<in> {U8, I8, U16, I16, U32, I32} \<and> off + getTypeSize k \<le> length view \<longrightarrow>
        (\<exists>view1. writeField P view off (Prim k) (JSBool b) = Inr view1
           \<and> readPrimitive P view1 off k = Inr (Num (if b then 1 else 0))))"
proof (intro conjI impI)
  let ?zero = "replicate (sl_size layout) (0::byte)"
  have "isl (encode P this layout values) \<longleftrightarrow> isl (encode_loop P ?zero (sl_fields layout) values)"
    by (simp add: encode_def split: sum.splits)
  with encode_loop_fails_iff[of "?zero" "?zero" P "sl_fields layout" "values"]
  show "isl (encode P this layout values) \<longleftrightarrow>
      (\<exists>f\<in>set (sl_fields layout).
          recordGet values (fl_name f) \<noteq> Undefined
          \<and> isl (writeField P ?zero (fl_offset f) (fl_type f) (recordGet values (fl_name f))))"
    by simp
next
  let ?zero = "replicate (sl_size layout) (0::byte)"
  assume "encode P this layout values = Inl e"
  then have "encode_loop P ?zero (sl_fields layout) values = Inl e"
    by (simp add: encode_def split: sum.splits)
  from encode_loop_error_origin[OF this]
  show "\<exists>f\<in>set (sl_fields layout). \<exists>view1.
            length view1 = sl_size layout
            \<and> recordGet values (fl_name f) \<noteq> Undefined
            \<and> writeField P view1 (fl_offset f) (fl_type f) (recordGet values (fl_name f)) = Inl e"
    by simp
next
  assume "off + getTypeSize k \<le> length view"
  from writePrimitive_fails_iff[OF this, of P v]
  show "isl (writeField P view off (Prim k) v) \<longleftrightarrow>
           (if k \<in> {U64, I64, Usize} then isl (BigInt_of P v)
            else if k = Ptr then isl (BigInt_of P (if v = Undefined \<or> v = Null then Num 0 else v))
            else isl (ToNumber v))"
    by simp
next
  assume "k \<in> {U8, I8, U16, I16, U32, I32, Bool, F32, F64}"
  then show "writeField P view off (Prim k) (BigInt n) = Inl TypeError"
    by (auto simp: setter_defs)
next
  assume "k \<in> {U64, I64, Usize}"
  then show "writeField P view off (Prim k) Null = Inl TypeError"
    by auto
next
  assume "k \<in> {U64, I64, Usize, Ptr} \<and> \<not> is_integer x"
  then show "writeField P view off (Prim k) (Num x) = Inl RangeError"
    by auto
next
  assume "k \<in> {U64, I64, Usize, Ptr}"
  then show "writeField P view off (Prim k) (Obj []) = Inl SyntaxError"
    by auto
next
  assume "k \<in> {U8, I8, U16, I16, U32, I32} \<and> off + getTypeSize k \<le> length view"
  then have "k \<in> {U8, I8, U16, I16, U32, I32}" and "off + getTypeSize k \<le> length view"
    by simp_all
  from writePrimitive_boolean[OF this, of P b]
  show "\<exists>view1. writeField P view off (Prim k) (JSBool b) = Inr view1
           \<and> readPrimitive P view1 off k = Inr (Num (if b then 1 else 0))"
    by simp
qed

text \<open>
  A boolean given for a \<^verbatim>\<open>u32\<close> field is written as the number 1, without an error; so is a
  number beyond the range of a \<^verbatim>\<open>u8\<close> field, reduced modulo 256.
\<close>

theorem type_mismatch_counterexample:
  "encode boom_platform \<lparr>allocations = []\<rparr> (one_field_layout U32) [(''a'', JSBool True)]
     = Inr (\<lparr>es_buffer = [1, 0, 0, 0], es_ptr = 8192, es_size = 4\<rparr>,
            \<lparr>allocations = [[1, 0, 0, 0]]\<rparr>)
   \<and> encode boom_platform \<lparr>allocations = []\<rparr> (one_field_layout U8) [(''a'', Arr [Num 300])]
     = Inr (\<lparr>es_buffer = [44], es_ptr = 8192, es_size = 1\<rparr>, \<lparr>allocations = [[44]]\<rparr>)"
  by code_simp

text \<open>
  A field whose name every record inherits is written even when the value map has no entry
  for it: for a \<^verbatim>\<open>u64\<close> field named \<^verbatim>\<open>constructor\<close> and the empty value map, \<^verbatim>\<open>encode\<close> hands
  the inherited function to \<^verbatim>\<open>BigInt(...)\<close>, which raises a \<^verbatim>\<open>SyntaxError\<close>; for a \<^verbatim>\<open>u32\<close> field
  of that name it stores the 0 that \<^verbatim>\<open>NaN\<close> converts to.
\<close>

lemma inherited_member_is_written:
  "encode boom_platform \<lparr>allocations = []\<rparr>
     (defineStruct ''P'' [\<lparr>fd_name = ''constructor'', fd_type = Prim U64\<rparr>]) []
     = Inl SyntaxError
   \<and> encode boom_platform \<lparr>allocations = []\<rparr>
     (defineStruct ''P'' [\<lparr>fd_name = ''constructor'', fd_type = Prim U32\<rparr>]) []
     = Inr (\<lparr>es_buffer = [0, 0, 0, 0], es_ptr = 8192, es_size = 4\<rparr>,
            \<lparr>allocations = [[0, 0, 0, 0]]\<rparr>)
   \<and> encode boom_platform \<lparr>allocations = []\<rparr>
     (defineStruct ''P'' [\<lparr>fd_name = ''count'', fd_type = Prim U64\<rparr>]) []
     = Inr (\<lparr>es_buffer = [0, 0, 0, 0, 0, 0, 0, 0], es_ptr = 8192, es_size = 8\<rparr>,
            \<lparr>allocations = [[0, 0, 0, 0, 0, 0, 0, 0]]\<rparr>)"
  by code_simp

lemma one_field_layout_eq:
  "one_field_layout U32 = StructLayout ''S'' [FieldLayout ''a'' (Prim U32) 0 4 4] 4 4"
  by code_simp

theorem encode_fails_iff_conversion_throws_witness:
  "isl (encode boom_platform \<lparr>allocations = []\<rparr> (one_field_layout U32) [(''a'', BigInt 5)])
   \<and> \<not> isl (encode boom_platform \<lparr>allocations = []\<rparr> (one_field_layout U32) [(''a'', JSBool True)])
   \<and> writeField boom_platform [0, 0, 0, 0] 0 (Prim U32) (BigInt 5) = Inl TypeError
   \<and> writeField boom_platform [0, 0, 0, 0, 0, 0, 0, 0] 0 (Prim U64) Null = Inl TypeError
   \<and> writeField boom_platform [0, 0, 0, 0, 0, 0, 0, 0] 0 (Prim U64) (Num (1 / 2)) = Inl RangeError
   \<and> writeField boom_platform [0, 0, 0, 0, 0, 0, 0, 0] 0 (Prim U64) (Obj []) = Inl SyntaxError
   \<and> (\<exists>view1. writeField boom_platform [0, 0, 0, 0] 0 (Prim U32) (JSBool True) = Inr view1
         \<and> readU32 view1 0 = Inr (Num 1))"
proof -
  let ?L = "one_field_layout U32"
  let ?f = "FieldLayout ''a'' (Prim U32) 0 4 4"
  have fields: "sl_fields ?L = [?f]" and size: "sl_size ?L = 4"
    by (simp_all add: one_field_layout_eq)
  have zero: "replicate 4 (0::byte) = [0, 0, 0, 0]"
    by (simp add: numeral_Bit0 numeral_Bit1 add.commute)
  have inside: "0 + getTypeSize U32 \<le> length [0::byte, 0, 0, 0]" by simp
  note big = encode_fails_iff_conversion_throws
      [of boom_platform "\<lparr>allocations = []\<rparr>" ?L "[(''a'', BigInt 5)]" _ 0 U32 "[0, 0, 0, 0]"
          "BigInt 5" 5 "1 / 2" True]
  note bool = encode_fails_iff_conversion_throws
      [of boom_platform "\<lparr>allocations = []\<rparr>" ?L "[(''a'', JSBool True)]" _ 0 U32 "[0, 0, 0, 0]"
          "JSBool True" 5 "1 / 2" True]
  note wide = encode_fails_iff_conversion_throws
      [of boom_platform "\<lparr>allocations = []\<rparr>" ?L "[(''a'', Null)]" _ 0 U64
          "[0, 0, 0, 0, 0, 0, 0, 0]" Null 5 "1 / 2" True]
  from big inside have w1: "isl (writeField boom_platform [0, 0, 0, 0] 0 (Prim U32) (BigInt 5))"
    by simp
  from bool inside have w2: "\<not> isl (writeField boom_platform [0, 0, 0, 0] 0 (Prim U32) (JSBool True))"
    by simp
  from big w1
  have 1: "isl (encode boom_platform \<lparr>allocations = []\<rparr> ?L [(''a'', BigInt 5)])"
    by (simp add: fields size zero recordGet_def)
  from bool w2
  have 2: "\<not> isl (encode boom_platform \<lparr>allocations = []\<rparr> ?L [(''a'', JSBool True)])"
    by (simp add: fields size zero recordGet_def)
  from big have 3: "writeField boom_platform [0, 0, 0, 0] 0 (Prim U32) (BigInt 5) = Inl TypeError"
    by simp
  from wide
  have 4: "writeField boom_platform [0, 0, 0, 0, 0, 0, 0, 0] 0 (Prim U64) Null = Inl TypeError"
    by simp
  have "\<not> is_integer (1 / 2)" by code_simp
  with wide
  have 5: "writeField boom_platform [0, 0, 0, 0, 0, 0, 0, 0] 0 (Prim U64) (Num (1 / 2)) = Inl RangeError"
    by simp
  from wide
  have 6: "writeField boom_platform [0, 0, 0, 0, 0, 0, 0, 0] 0 (Prim U64) (Obj []) = Inl SyntaxError"
    by simp
  from bool inside
  have 7: "\<exists>view1. writeField boom_platform [0, 0, 0, 0] 0 (Prim U32) (JSBool True) = Inr view1
         \<and> readU32 view1 0 = Inr (Num 1)"
    by simp
  from 1 2 3 4 5 6 7 show ?thesis by blast
qed


end
